theory Spec2Isabelle
  imports Complex_Main "HOL-Library.Word" "HOL-Library.Log_Nat"
begin

section \<open>Python numbers\<close>

text \<open>
  The nodes of \<^verbatim>\<open>image_scale.py\<close> compute with Python integers (unbounded, modelled
  as \<^typ>\<open>int\<close>) and with Python floats.
  A finite float is modelled by the rational number it denotes. Every float operation
  computes the exact result and rounds it to 53 significant bits, ties to even, as
  binary64 arithmetic does. The exponent range of binary64 is left out: for tensor
  dimensions below \<open>2^63\<close> and sizes within the declared bounds every intermediate value
  of the planning nodes is zero or lies in the normal range of binary64, far from overflow
  and from subnormal numbers (lemmas \<open>specified_side_binary64\<close>, \<open>sd_models_binary64\<close> and
  \<open>scale_ratio_binary64\<close> below).
\<close>

datatype py_error = ZeroDivisionError | ValueError | IndexError | TypeError | Cv2Error

type_synonym pyfloat = rat

text \<open>Rounding to the nearest integer, ties to the even neighbour: Python's \<^verbatim>\<open>round(x)\<close>
  on a float, and the rounding of a binary64 significand.\<close>

definition round_half_even :: "rat \<Rightarrow> int" where
  "round_half_even x =
     (let f = \<lfloor>x\<rfloor>; d = x - of_int f
      in if d < 1 / 2 then f else if 1 / 2 < d then f + 1 else if even f then f else f + 1)"

text \<open>The binary exponent \<open>\<lfloor>log\<^sub>2 \<bar>x\<bar>\<rfloor>\<close> of a rational \<open>x \<noteq> 0\<close>, from the bit lengths of
  its numerator and denominator.\<close>

definition ilog2 :: "rat \<Rightarrow> int" where
  "ilog2 x = (case quotient_of \<bar>x\<bar> of (p, q) \<Rightarrow>
     let d = bitlen p - bitlen q in if 2 powi d \<le> \<bar>x\<bar> then d else d - 1)"

text \<open>Rounding a rational to the nearest number with a 53-bit significand.\<close>

definition fl :: "rat \<Rightarrow> pyfloat" where
  "fl x = (if x = 0 then 0
           else let e = ilog2 x - 52 in of_int (round_half_even (x / 2 powi e)) * 2 powi e)"

text \<open>The normal range of binary64, where rounding to 53 significant bits is all that
  the hardware does: zero, or a magnitude from \<open>2^-1022\<close> up to, and excluding, \<open>2^1024\<close>.\<close>

definition binary64_normal :: "rat \<Rightarrow> bool" where
  "binary64_normal x \<longleftrightarrow> x = 0 \<or> (2 powi (- 1022) \<le> \<bar>x\<bar> \<and> \<bar>x\<bar> < 2 powi 1024)"

text \<open>\<^verbatim>\<open>float(n)\<close>, the conversion applied to an integer operand of a mixed operation.\<close>

definition float_of_int :: "int \<Rightarrow> pyfloat" where
  "float_of_int n = fl (of_int n)"



definition int_mul_float :: "int \<Rightarrow> pyfloat \<Rightarrow> pyfloat" where
  "int_mul_float a x = fl (float_of_int a * x)"


definition py_int :: "pyfloat \<Rightarrow> int" where
  "py_int x = (if 0 \<le> x then \<lfloor>x\<rfloor> else \<lceil>x\<rceil>)"

text \<open>The integer square root, two bits of the argument at a time.\<close>

function isqrt :: "int \<Rightarrow> int" where
  "isqrt n =
     (if n < 2 then n
      else let r = 2 * isqrt (n div 4) in if (r + 1) * (r + 1) \<le> n then r + 1 else r)"
  by pat_completeness auto
termination
  by (relation "measure nat") auto

declare isqrt.simps [simp del]

text \<open>
  \<^verbatim>\<open>math.sqrt(x)\<close>: the square root rounded to 53 significant bits. The argument is
  scaled by a power of four into \<open>[2^104, 2^106)\<close>, so that the integer square root
  \<open>n\<close> has exactly 53 bits; the root is rounded up when it lies above \<open>n + 1/2\<close> (it
  never lies on it).
\<close>

definition fsqrt :: "pyfloat \<Rightarrow> pyfloat" where
  "fsqrt x =
     (if x \<le> 0 then 0
      else let k = (ilog2 x - 104) div 2;
               y = x / 4 powi k;
               n = isqrt \<lfloor>y\<rfloor>;
               m = (if (of_int n + 1 / 2) * (of_int n + 1 / 2) < y then n + 1 else n)
           in of_int m * 2 powi k)"


section \<open>Planning the output dimensions\<close>


text \<open>
  The three scaling nodes read \<^verbatim>\<open>image.shape[2]\<close> (the width \<open>w\<close>) and
  \<^verbatim>\<open>image.shape[1]\<close> (the height \<open>h\<close>) and compute the target width and height. The
  models return what \<^verbatim>\<open>prepare_result\<close> reports besides the resampled image and mask,
  which come from the host's resampler: the width, the height and their minimum.
\<close>

definition sd_dimensions :: "string \<rightharpoonup> int \<times> int" where
  "sd_dimensions =
     [''sd15'' \<mapsto> (512, 512), ''sd15+'' \<mapsto> (512, 768),
      ''sdxl'' \<mapsto> (1024, 1024), ''sdxl+'' \<mapsto> (1024, 1280)]"

definition sd_dimensions_get :: "string \<Rightarrow> int \<times> int" where
  "sd_dimensions_get sd_model_type =
     (case sd_dimensions sd_model_type of Some d \<Rightarrow> d | None \<Rightarrow> (1024, 1024))"




section \<open>Images, arrays and masks\<close>

text \<open>
  An array of shape (height, width, channels) with \<^verbatim>\<open>dtype=uint8\<close> is a list of rows, a
  row a list of pixels, a pixel the list of its channel bytes. An image tensor
  (batch, height, width, channels) is the list of its images, a mask tensor
  (batch, height, width) the list of its masks. Nested lists have no shape of their
  own: the shape is read off the first row and the first pixel, and \<open>is_array\<close> says
  that all rows and all pixels agree with it. An array with no rows or no columns
  reads as having no channels.
\<close>

type_synonym uint8 = "8 word"
type_synonym pixel = "uint8 list"
type_synonym ndarray = "pixel list list"
type_synonym image_tensor = "ndarray list"
type_synonym mask_tensor = "pyfloat list list list"

definition shape_h :: "'a list list \<Rightarrow> nat" where
  "shape_h a = length a"

definition shape_w :: "'a list list \<Rightarrow> nat" where
  "shape_w a = (case a of [] \<Rightarrow> 0 | row # _ \<Rightarrow> length row)"

definition shape_c :: "ndarray \<Rightarrow> nat" where
  "shape_c a = (case a of (p # _) # _ \<Rightarrow> length p | _ \<Rightarrow> 0)"

definition is_matrix :: "'a list list \<Rightarrow> bool" where
  "is_matrix a \<longleftrightarrow> (\<forall>row \<in> set a. length row = shape_w a)"

definition is_array :: "ndarray \<Rightarrow> bool" where
  "is_array a \<longleftrightarrow> is_matrix a \<and> (\<forall>row \<in> set a. \<forall>p \<in> set row. length p = shape_c a)"

text \<open>
  Modelled from the spec: \<^verbatim>\<open>tensor2np\<close> and \<^verbatim>\<open>np2tensor\<close> are imported from
  \<^verbatim>\<open>utils/image_convert.py\<close>, which is not among the sources. The spec describes them
  as converting an image "between the host's tensor layout and a library-native array
  layout": \<^verbatim>\<open>tensor2np\<close> takes one image of a batch to the array of its samples, and
  \<^verbatim>\<open>np2tensor\<close> takes an array back to an image without a batch dimension, which the
  callers add with \<^verbatim>\<open>unsqueeze(0)\<close>. Both keep every sample and the channel order.
\<close>

definition tensor2np :: "ndarray \<Rightarrow> ndarray" where
  "tensor2np t = t"

definition np2tensor :: "ndarray \<Rightarrow> ndarray" where
  "np2tensor a = a"

definition unsqueeze0 :: "'a \<Rightarrow> 'a list" where
  "unsqueeze0 t = [t]"

text \<open>\<^verbatim>\<open>np.full((rows, cols), v)\<close>, and the slice assignment
  \<^verbatim>\<open>canvas[r0 : r0 + h, c0 : c0 + w] = src\<close> for a source of \<open>h\<close> rows of \<open>w\<close>
  entries that lies inside the canvas.\<close>

definition np_full :: "nat \<Rightarrow> nat \<Rightarrow> 'a \<Rightarrow> 'a list list" where
  "np_full rows cols v = replicate rows (replicate cols v)"

definition assign_row :: "'a list \<Rightarrow> nat \<Rightarrow> 'a list \<Rightarrow> 'a list" where
  "assign_row crow c0 srow = take c0 crow @ srow @ drop (c0 + length srow) crow"

definition assign_slice :: "'a list list \<Rightarrow> nat \<Rightarrow> nat \<Rightarrow> 'a list list \<Rightarrow> 'a list list" where
  "assign_slice canvas r0 c0 src =
     take r0 canvas
     @ map2 (\<lambda>crow srow. assign_row crow c0 srow) (take (length src) (drop r0 canvas)) src
     @ drop (r0 + length src) canvas"

section \<open>AddImageBorder\<close>

text \<open>
  \<^verbatim>\<open>add_border\<close> reads the first image of the batch (\<^verbatim>\<open>IndexError\<close> on an empty batch).
  \<^verbatim>\<open>np.full\<close> with the fill value \<^verbatim>\<open>[b, g, r]\<close> needs three channels, and a negative
  border width gives a negative dimension or a slice that the image does not fit: both
  are a \<^verbatim>\<open>ValueError\<close>. The colour values lie within the declared bounds 0 to 255.
\<close>

definition final_border_width :: "ndarray \<Rightarrow> int \<Rightarrow> pyfloat \<Rightarrow> int" where
  "final_border_width img_np border_width border_ratio =
     (let h = shape_h img_np; w = shape_w img_np;
          ratio_width = py_int (int_mul_float (int (min h w)) border_ratio)
      in max border_width ratio_width)"

definition add_border ::
    "image_tensor \<Rightarrow> int \<Rightarrow> pyfloat \<Rightarrow> uint8 \<Rightarrow> uint8 \<Rightarrow> uint8
      \<Rightarrow> py_error + image_tensor \<times> mask_tensor" where
  "add_border image' border_width border_ratio r g b =
     (case image' of
        [] \<Rightarrow> Inl IndexError
      | image0 # _ \<Rightarrow>
          let img_np = tensor2np image0;
              h = shape_h img_np; w = shape_w img_np; c = shape_c img_np;
              fbw = final_border_width img_np border_width border_ratio
          in if fbw < 0 \<or> c \<noteq> 3 then Inl ValueError
             else
               let e = nat fbw;
                   new_h = h + 2 * e; new_w = w + 2 * e;
                   bordered_img = assign_slice (np_full new_h new_w [b, g, r]) e e img_np;
                   border_mask = assign_slice (np_full new_h new_w 1) e e (np_full h w 0)
               in Inr (unsqueeze0 (np2tensor bordered_img), unsqueeze0 border_mask))"

text \<open>Cropping an array back by \<open>e\<close> rows and columns on every side, in the words of the
  spec.\<close>

definition crop_back :: "nat \<Rightarrow> 'a list list \<Rightarrow> 'a list list" where
  "crop_back e a = map (\<lambda>row. take (length row - 2 * e) (drop e row)) (take (length a - 2 * e) (drop e a))"

text \<open>An array of rows of width \<open>w\<close> inside a border of \<open>e\<close> entries \<open>v\<close> on every side:
  what the two slice assignments of \<^verbatim>\<open>add_border\<close> produce.\<close>

definition frame :: "nat \<Rightarrow> nat \<Rightarrow> 'a \<Rightarrow> 'a list list \<Rightarrow> 'a list list" where
  "frame e w v src = replicate e (replicate (w + 2 * e) v)
           @ map (\<lambda>srow. replicate e v @ srow @ replicate e v) src
           @ replicate e (replicate (w + 2 * e) v)"

section \<open>TrimImageBorders\<close>

text \<open>
  The image library's operations on an 8-bit image: \<^verbatim>\<open>Image.fromarray\<close> accepts three
  channels (mode RGB) or four (mode RGBA); \<^verbatim>\<open>convert('L')\<close> computes the luminance of the
  red, green and blue bytes with the library's fixed-point weights; \<^verbatim>\<open>point\<close> maps every
  value; \<^verbatim>\<open>getbbox\<close> is the bounding box (left, upper, right, lower) of the non-zero
  values, right and lower exclusive, or \<^verbatim>\<open>None\<close>; \<^verbatim>\<open>crop\<close> cuts the box out.
\<close>

definition fromarray :: "ndarray \<Rightarrow> py_error + ndarray" where
  "fromarray a = (if shape_c a = 3 \<or> shape_c a = 4 then Inr a else Inl TypeError)"

definition rgb2l :: "pixel \<Rightarrow> int" where
  "rgb2l p = (uint (p ! 0) * 19595 + uint (p ! 1) * 38470 + uint (p ! 2) * 7471 + 32768) div 65536"

definition convert_L :: "ndarray \<Rightarrow> int list list" where
  "convert_L img = map (map rgb2l) img"

definition point :: "int list list \<Rightarrow> (int \<Rightarrow> int) \<Rightarrow> int list list" where
  "point img f = map (map f) img"

definition nonzero_rows :: "int list list \<Rightarrow> nat list" where
  "nonzero_rows g = filter (\<lambda>i. \<exists>v \<in> set (g ! i). v \<noteq> 0) [0..<shape_h g]"

definition nonzero_cols :: "int list list \<Rightarrow> nat list" where
  "nonzero_cols g = filter (\<lambda>j. \<exists>row \<in> set g. row ! j \<noteq> 0) [0..<shape_w g]"

definition getbbox :: "int list list \<Rightarrow> (nat \<times> nat \<times> nat \<times> nat) option" where
  "getbbox g =
     (case (nonzero_cols g, nonzero_rows g) of
        (j # js, i # ks) \<Rightarrow> Some (j, i, last (j # js) + 1, last (i # ks) + 1)
      | _ \<Rightarrow> None)"

definition crop :: "'a list list \<Rightarrow> nat \<times> nat \<times> nat \<times> nat \<Rightarrow> 'a list list" where
  "crop img bbox =
     (case bbox of (left, upper, right, lower) \<Rightarrow>
        map (\<lambda>row. take (right - left) (drop left row)) (take (lower - upper) (drop upper img)))"

definition TrimImageBorders_run :: "image_tensor \<Rightarrow> int \<Rightarrow> py_error + image_tensor" where
  "TrimImageBorders_run image' threshold =
     (case image' of
        [] \<Rightarrow> Inl IndexError
      | image0 # _ \<Rightarrow>
          (case fromarray (tensor2np image0) of
             Inl e \<Rightarrow> Inl e
           | Inr img \<Rightarrow>
               let gray_image = convert_L img;
                   binary_image = point gray_image (\<lambda>x. if x > threshold then 255 else 0);
                   cropped_image = (case getbbox binary_image of
                                      Some bbox \<Rightarrow> crop img bbox
                                    | None \<Rightarrow> img)
               in Inr (unsqueeze0 (np2tensor cropped_image))))"

section \<open>ImageRotate\<close>

text \<open>
  Float addition and subtraction, and \<^verbatim>\<open>n / 2\<close> for an integer \<open>n\<close>.
\<close>

definition fadd :: "pyfloat \<Rightarrow> pyfloat \<Rightarrow> pyfloat" where
  "fadd x y = fl (x + y)"

definition fsub :: "pyfloat \<Rightarrow> pyfloat \<Rightarrow> pyfloat" where
  "fsub x y = fl (x - y)"

definition half :: "int \<Rightarrow> pyfloat" where
  "half n = fl (of_int n / 2)"

text \<open>
  \<^verbatim>\<open>run\<close> calls two primitives of the computer-vision library, which are parameters of
  the model: \<^verbatim>\<open>getRotationMatrix2D(center, angle, scale)\<close> returns a 2 by 3 matrix of
  floats, and \<^verbatim>\<open>warpAffine(src, M, dsize, flags)\<close> returns the warped array or fails. The
  matrix is a record of its six entries, \<open>m02\<close> and \<open>m12\<close> being the translation.
\<close>

record rot_mat =
  m00 :: pyfloat
  m01 :: pyfloat
  m02 :: pyfloat
  m10 :: pyfloat
  m11 :: pyfloat
  m12 :: pyfloat

datatype interpolation = INTER_NEAREST | INTER_LINEAR | INTER_CUBIC

definition ImageRotate_run ::
    "(pyfloat \<times> pyfloat \<Rightarrow> pyfloat \<Rightarrow> pyfloat \<Rightarrow> rot_mat)
     \<Rightarrow> (ndarray \<Rightarrow> rot_mat \<Rightarrow> int \<times> int \<Rightarrow> interpolation \<Rightarrow> py_error + ndarray)
     \<Rightarrow> image_tensor \<Rightarrow> pyfloat \<Rightarrow> bool \<Rightarrow> py_error + image_tensor" where
  "ImageRotate_run getRotationMatrix2D warpAffine image_from angle expand =
     (case image_from of
        [] \<Rightarrow> Inl IndexError
      | image0 # _ \<Rightarrow>
          let image_np = tensor2np image0;
              height = int (shape_h image_np); width = int (shape_w image_np);
              center = (half width, half height)
          in if expand then
               let rot = getRotationMatrix2D center angle 1;
                   abs_cos = \<bar>m00 rot\<bar>;
                   abs_sin = \<bar>m01 rot\<bar>;
                   new_width = py_int (fadd (int_mul_float height abs_sin) (int_mul_float width abs_cos));
                   new_height = py_int (fadd (int_mul_float height abs_cos) (int_mul_float width abs_sin));
                   rot = rot\<lparr>m02 := fadd (m02 rot) (fsub (half new_width) (fst center))\<rparr>;
                   rot = rot\<lparr>m12 := fadd (m12 rot) (fsub (half new_height) (snd center))\<rparr>
               in (case warpAffine image_np rot (new_width, new_height) INTER_CUBIC of
                     Inl e \<Rightarrow> Inl e
                   | Inr rotated_image \<Rightarrow> Inr (unsqueeze0 (np2tensor rotated_image)))
             else
               let rot = getRotationMatrix2D center angle 1
               in (case warpAffine image_np rot (width, height) INTER_CUBIC of
                     Inl e \<Rightarrow> Inl e
                   | Inr rotated_image \<Rightarrow> Inr (unsqueeze0 (np2tensor rotated_image))))"

text \<open>
  An instance of the two primitives for the scenario of a quarter turn: the matrix that
  \<^verbatim>\<open>getRotationMatrix2D\<close> returns has the binary64 cosine and sine of 90 degrees,
  \<open>6.123233995736766e-17\<close> and 1, in its first row, and a warp that returns a black
  image of the requested size.
\<close>

definition cos_90 :: pyfloat where
  "cos_90 = 4967757600021511 / 2 ^ 106"

definition quarter_turn :: "pyfloat \<times> pyfloat \<Rightarrow> pyfloat \<Rightarrow> pyfloat \<Rightarrow> rot_mat" where
  "quarter_turn center angle scale =
     \<lparr>m00 = cos_90, m01 = 1, m02 = 0, m10 = - 1, m11 = cos_90, m12 = 0\<rparr>"

definition blank_warp :: "ndarray \<Rightarrow> rot_mat \<Rightarrow> int \<times> int \<Rightarrow> interpolation \<Rightarrow> py_error + ndarray" where
  "blank_warp src M dsize flags =
     (if 0 < fst dsize \<and> 0 < snd dsize
      then Inr (np_full (nat (snd dsize)) (nat (fst dsize)) [0, 0, 0])
      else Inl Cv2Error)"

text \<open>The binarised luminance image that \<^verbatim>\<open>run\<close> passes to \<^verbatim>\<open>getbbox\<close>.\<close>

definition binarize :: "ndarray \<Rightarrow> int \<Rightarrow> int list list" where
  "binarize img threshold = point (convert_L img) (\<lambda>x. if x > threshold then 255 else 0)"

section \<open>Facts about the number model\<close>

lemma round_half_even_nonneg: "0 \<le> x \<Longrightarrow> 0 \<le> round_half_even x"
  by (simp add: round_half_even_def Let_def)

lemma pow2_le_of_int:
  fixes p :: int assumes "0 < p"
  shows "(2::rat) powi (bitlen p - 1) \<le> of_int p" "of_int p < (2::rat) powi (bitlen p)"
proof -
  from bitlen_bounds[OF assms] have a: "2 ^ nat (bitlen p - 1) \<le> p" and b: "p < 2 ^ nat (bitlen p)"
    by auto
  have ge: "1 \<le> bitlen p" using assms bitlen_eq_zero_iff[of p] bitlen_nonneg[of p] by linarith
  have "(2::rat) powi (bitlen p - 1) = of_int (2 ^ nat (bitlen p - 1))"
    using ge by (simp add: power_int_def)
  also have "\<dots> \<le> of_int p" using a by (simp only: of_int_le_iff)
  finally show "(2::rat) powi (bitlen p - 1) \<le> of_int p" .
  have "(of_int p :: rat) < of_int (2 ^ nat (bitlen p))" using b by (simp only: of_int_less_iff)
  also have "\<dots> = 2 powi (bitlen p)" using ge by (simp add: power_int_def)
  finally show "of_int p < (2::rat) powi (bitlen p)" .
qed

lemma ilog2_bounds:
  assumes "x \<noteq> 0"
  shows "2 powi (ilog2 x) \<le> \<bar>x\<bar>" "\<bar>x\<bar> < 2 powi (ilog2 x + 1)"
proof -
  obtain p q where pq: "quotient_of \<bar>x\<bar> = (p, q)" by (cases "quotient_of \<bar>x\<bar>")
  have q: "0 < q" using pq by (rule quotient_of_denom_pos)
  have ax: "\<bar>x\<bar> = of_int p / of_int q" using pq by (rule quotient_of_div)
  have "0 < \<bar>x\<bar>" using assms by simp
  then have p: "0 < p" using q unfolding ax by (simp add: zero_less_divide_iff)
  define d where "d = bitlen p - bitlen q"
  have il: "ilog2 x = (if 2 powi d \<le> \<bar>x\<bar> then d else d - 1)"
    by (simp add: ilog2_def pq d_def Let_def)
  have qr: "(0::rat) < of_int q" using q by simp
  have lo: "(2::rat) powi (d - 1) \<le> \<bar>x\<bar>"
  proof -
    have "(2::rat) powi (d - 1) = 2 powi (bitlen p - 1) / 2 powi (bitlen q)"
      by (simp add: d_def power_int_diff)
    also have "\<dots> \<le> of_int p / 2 powi (bitlen q)"
      using pow2_le_of_int(1)[OF p] by (simp add: divide_right_mono)
    also have "\<dots> \<le> of_int p / of_int q"
      using pow2_le_of_int(2)[OF q] p qr by (intro divide_left_mono) (auto intro: mult_pos_pos)
    finally show ?thesis by (simp add: ax)
  qed
  have hi: "\<bar>x\<bar> < (2::rat) powi (d + 1)"
  proof -
    have "of_int p / of_int q < (2::rat) powi (bitlen p) / of_int q"
      using pow2_le_of_int(2)[OF p] qr by (simp add: divide_strict_right_mono)
    also have "\<dots> \<le> 2 powi (bitlen p) / 2 powi (bitlen q - 1)"
      using pow2_le_of_int(1)[OF q] qr by (intro divide_left_mono) (auto intro: mult_pos_pos)
    also have "\<dots> = 2 powi (d + 1)"
      by (simp add: d_def power_int_diff power_int_add)
    finally show ?thesis by (simp add: ax)
  qed
  show "2 powi (ilog2 x) \<le> \<bar>x\<bar>" using lo by (simp add: il)
  show "\<bar>x\<bar> < 2 powi (ilog2 x + 1)" using hi by (auto simp add: il not_le)
qed


lemma fl_nonneg: "0 \<le> x \<Longrightarrow> 0 \<le> fl x"
  by (simp add: fl_def Let_def round_half_even_nonneg)


lemma fl_zero: "fl 0 = 0" by (simp add: fl_def)




lemma float_of_int_nonneg: "0 \<le> n \<Longrightarrow> 0 \<le> float_of_int n"
  by (simp add: float_of_int_def fl_nonneg)




lemma isqrt_correct:
  "0 \<le> n \<Longrightarrow> 0 \<le> isqrt n \<and> isqrt n * isqrt n \<le> n \<and> n < (isqrt n + 1) * (isqrt n + 1)"
proof (induction n rule: isqrt.induct)
  case (1 n)
  show ?case
  proof (cases "n < 2")
    case True
    with "1.prems" have "n = 0 \<or> n = 1" by auto
    then show ?thesis by (auto simp add: isqrt.simps[of 0] isqrt.simps[of 1])
  next
    case False
    define s where "s = isqrt (n div 4)"
    have "0 \<le> n div 4" using "1.prems" by simp
    from "1.IH"[OF False this]
    have ih: "0 \<le> s" "s * s \<le> n div 4" "n div 4 < (s + 1) * (s + 1)"
      by (simp_all add: s_def)
    have q: "4 * (n div 4) \<le> n" "n < 4 * (n div 4) + 4" by presburger+
    have eq: "isqrt n = (if (2 * s + 1) * (2 * s + 1) \<le> n then 2 * s + 1 else 2 * s)"
      using False by (subst isqrt.simps) (simp add: s_def Let_def)
    have lo: "(2 * s) * (2 * s) \<le> n" using ih(2) q(1) by (simp add: algebra_simps)
    have hi: "n < (2 * s + 2) * (2 * s + 2)" using ih(3) q(2) by (simp add: algebra_simps)
    show ?thesis
    proof (cases "(2 * s + 1) * (2 * s + 1) \<le> n")
      case True
      then show ?thesis using hi ih(1) by (simp add: eq algebra_simps)
    next
      case False
      then show ?thesis using lo ih(1) by (simp add: eq algebra_simps)
    qed
  qed
qed


lemma round_half_even_close: "\<bar>of_int (round_half_even x) - x\<bar> \<le> 1 / 2"
proof -
  have "of_int \<lfloor>x\<rfloor> \<le> x" "x < of_int \<lfloor>x\<rfloor> + 1" by linarith+
  then show ?thesis by (auto simp add: round_half_even_def Let_def)
qed


lemma four_powi: "(4::rat) powi k = 2 powi k * 2 powi k"
proof -
  have "(4::rat) = 2 * 2" by simp
  then show ?thesis by (simp only: power_int_mult_distrib)
qed

lemma fsqrt_nearest:
  assumes "0 < x"
  shows "\<exists>m k. fsqrt x = of_int m * 2 powi k \<and> 2 ^ 52 \<le> m
           \<and> 2 ^ 104 * 4 powi k \<le> x
           \<and> (of_int m - 1 / 2) * (of_int m - 1 / 2) * 4 powi k \<le> x
           \<and> x \<le> (of_int m + 1 / 2) * (of_int m + 1 / 2) * 4 powi k"
proof -
  have x0: "x \<noteq> 0" using assms by simp
  define L where "L = ilog2 x"
  define k where "k = (L - 104) div 2"
  define y where "y = x / 4 powi k"
  define n where "n = isqrt \<lfloor>y\<rfloor>"
  define m where "m = (if (of_int n + 1 / 2) * (of_int n + 1 / 2) < y then n + 1 else n)"
  have res: "fsqrt x = of_int m * 2 powi k"
    using assms by (simp add: fsqrt_def Let_def m_def n_def y_def k_def L_def)
  have p4: "(0::rat) < 4 powi k" by simp
  have xy: "x = y * 4 powi k" by (simp add: y_def)
  have kL: "2 * k + 104 \<le> L" unfolding k_def by presburger
  have s1: "(2::rat) powi (104 + (k + k)) = 2 powi 104 * 2 powi (k + k)"
    by (rule power_int_add) simp
  have s2: "(2::rat) powi (k + k) = 2 powi k * 2 powi k"
    by (rule power_int_add) simp
  have "(2::rat) powi 104 * 4 powi k = 2 powi (104 + (k + k))"
    by (simp only: four_powi s1 s2)
  also have "\<dots> \<le> 2 powi L" using kL by (intro power_int_increasing) simp_all
  also have "\<dots> \<le> x" using ilog2_bounds(1)[OF x0] assms by (simp add: L_def)
  finally have "(2::rat) powi 104 \<le> y" unfolding y_def using p4 by (simp add: pos_le_divide_eq)
  then have ylo: "(2::rat) ^ 104 \<le> y" by simp
  then have fy: "(2::int) ^ 104 \<le> \<lfloor>y\<rfloor>" by (simp add: le_floor_iff)
  have fy0: "0 \<le> \<lfloor>y\<rfloor>" by (rule order_trans[OF _ fy]) simp
  from isqrt_correct[OF fy0]
  have n0: "0 \<le> n" and ni: "n * n \<le> \<lfloor>y\<rfloor>" "\<lfloor>y\<rfloor> < (n + 1) * (n + 1)"
    by (simp_all add: n_def)
  have nlo: "2 ^ 52 \<le> n"
  proof (rule ccontr)
    assume "\<not> 2 ^ 52 \<le> n"
    then have "n + 1 \<le> 2 ^ 52" by simp
    then have "(n + 1) * (n + 1) \<le> 2 ^ 52 * 2 ^ 52" using n0 by (intro mult_mono) simp_all
    also have "(2::int) ^ 52 * 2 ^ 52 = 2 ^ 104" by simp
    finally have "(n + 1) * (n + 1) \<le> \<lfloor>y\<rfloor>" using fy by (rule order_trans)
    then show False using ni(2) by linarith
  qed
  have nr: "of_int n * of_int n \<le> y"
  proof -
    have "(of_int (n * n) :: rat) \<le> of_int \<lfloor>y\<rfloor>" using ni(1) by (simp only: of_int_le_iff)
    also have "\<dots> \<le> y" by simp
    finally show ?thesis by simp
  qed
  have nr2: "y < (of_int n + 1) * (of_int n + 1)"
  proof -
    have "\<lfloor>y\<rfloor> + 1 \<le> (n + 1) * (n + 1)" using ni(2) by simp
    then have "(of_int (\<lfloor>y\<rfloor> + 1) :: rat) \<le> of_int ((n + 1) * (n + 1))" by (simp only: of_int_le_iff)
    moreover have "y < of_int (\<lfloor>y\<rfloor> + 1)" by simp linarith
    ultimately show ?thesis by simp
  qed
  have nq: "(1::rat) \<le> of_int n" using nlo by (simp add: order_trans[of 1 "2 ^ 52"])
  have mlo: "2 ^ 52 \<le> m" using nlo by (simp add: m_def)
  have A: "(of_int m - 1 / 2) * (of_int m - 1 / 2) \<le> y"
  proof (cases "(of_int n + 1 / 2) * (of_int n + 1 / 2) < y")
    case True
    then show ?thesis by (simp add: m_def algebra_simps)
  next
    case False
    have "(of_int n - 1 / 2) * (of_int n - 1 / 2) \<le> (of_int n :: rat) * of_int n"
      using nq by (simp add: algebra_simps)
    then show ?thesis using False nr by (simp add: m_def)
  qed
  have B: "y \<le> (of_int m + 1 / 2) * (of_int m + 1 / 2)"
  proof (cases "(of_int n + 1 / 2) * (of_int n + 1 / 2) < y")
    case True
    have "(of_int n + 1) * (of_int n + 1) \<le> (of_int n + 1 + 1 / 2) * (of_int n + 1 + 1 / 2 :: rat)"
      using nq by (simp add: algebra_simps)
    then show ?thesis using True nr2 by (simp add: m_def)
  next
    case False
    then show ?thesis by (simp add: m_def)
  qed
  have "(of_int m - 1 / 2) * (of_int m - 1 / 2) * 4 powi k \<le> x"
    unfolding xy using A p4 by (intro mult_right_mono) simp_all
  moreover have "x \<le> (of_int m + 1 / 2) * (of_int m + 1 / 2) * 4 powi k"
    unfolding xy using B p4 by (intro mult_right_mono) simp_all
  moreover have "2 ^ 104 * 4 powi k \<le> x"
    unfolding xy using ylo p4 by (intro mult_right_mono) simp_all
  ultimately show ?thesis using res mlo by blast
qed









subsection \<open>The exponent range\<close>

text \<open>Rounding keeps a value between two powers of two between them, so the ranges of
  the intermediate values of the planning nodes follow from the ranges of their inputs.\<close>

lemma round_half_even_of_int: "round_half_even (of_int k) = k"
  by (simp add: round_half_even_def Let_def)

lemma powi_less_cancel:
  assumes "(2::rat) powi a < 2 powi b"
  shows "a < b"
proof (rule ccontr)
  assume "\<not> a < b"
  then have "(2::rat) powi b \<le> 2 powi a" by (intro power_int_increasing) simp_all
  then show False using assms by simp
qed

text \<open>A number with a significand of at most 53 bits is a float: rounding keeps it.\<close>

lemma fl_exact:
  assumes "\<bar>k\<bar> < 2 ^ 53"
  shows "fl (of_int k * 2 powi e) = of_int k * 2 powi e"
proof (cases "k = 0")
  case True
  then show ?thesis by (simp add: fl_def)
next
  case False
  define x :: rat where "x = of_int k * 2 powi e"
  have x0: "x \<noteq> 0" using False by (simp add: x_def)
  define e' where "e' = ilog2 x - 52"
  have "\<bar>x\<bar> = of_int \<bar>k\<bar> * 2 powi e" by (simp add: x_def abs_mult)
  also have "\<dots> < 2 ^ 53 * 2 powi e"
  proof -
    have "(of_int \<bar>k\<bar> :: rat) < of_int (2 ^ 53)" using assms by (simp only: of_int_less_iff)
    then show ?thesis by (intro mult_strict_right_mono) simp_all
  qed
  also have "\<dots> = 2 powi (53 + e)" by (simp add: power_int_add)
  finally have "\<bar>x\<bar> < (2::rat) powi (53 + e)" .
  with ilog2_bounds(1)[OF x0] have "2 powi (ilog2 x) < (2::rat) powi (53 + e)"
    by (rule le_less_trans)
  then have "ilog2 x < 53 + e" by (rule powi_less_cancel)
  then have le: "e' \<le> e" by (simp add: e'_def)
  then obtain d where d: "e = e' + int d" by (metis zle_iff_zadd)
  have "x / 2 powi e' = of_int k * 2 powi (e - e')"
    by (simp add: x_def power_int_diff)
  also have "\<dots> = of_int (k * 2 ^ d)" by (simp add: d power_int_def)
  finally have "round_half_even (x / 2 powi e') = k * 2 ^ d"
    by (simp only: round_half_even_of_int)
  then have "fl x = of_int (k * 2 ^ d) * 2 powi e'"
    using x0 by (simp add: fl_def Let_def e'_def)
  also have "\<dots> = of_int k * (2 powi (int d) * 2 powi e')" by (simp add: power_int_def)
  also have "\<dots> = of_int k * 2 powi e" by (simp add: d power_int_add add.commute)
  finally show ?thesis by (simp add: x_def)
qed

lemma fl_of_int: "\<bar>n\<bar> < 2 ^ 53 \<Longrightarrow> fl (of_int n) = of_int n"
  using fl_exact[of n 0] by simp

lemma half_exact: "\<bar>n\<bar> < 2 ^ 53 \<Longrightarrow> half n = of_int n / 2"
  using fl_exact[of n "- 1"] by (simp add: half_def power_int_minus)

text \<open>Rounding does not cross a power of two.\<close>

lemma fl_range:
  assumes "2 powi a \<le> x" and "x \<le> 2 powi b"
  shows "2 powi a \<le> fl x" and "fl x \<le> 2 powi b"
proof -
  have xpos: "0 < x" using assms(1) by (rule less_le_trans[rotated]) simp
  then have x0: "x \<noteq> 0" by simp
  define L where "L = ilog2 x"
  define e where "e = L - 52"
  define z where "z = x / 2 powi e"
  define r where "r = round_half_even z"
  have lo: "2 powi L \<le> x" and hi: "x < 2 powi (L + 1)"
    using ilog2_bounds[OF x0] xpos by (simp_all add: L_def)
  have pe: "(0::rat) < 2 powi e" by simp
  have "(2::rat) powi L / 2 powi e = 2 powi 52" "(2::rat) powi (L + 1) / 2 powi e = 2 powi 53"
    by (simp_all add: e_def flip: power_int_diff)
  then have z: "2 ^ 52 \<le> z" "z < 2 ^ 53"
    using lo hi pe divide_right_mono[of "2 powi L" x "2 powi e"]
      divide_strict_right_mono[of x "2 powi (L + 1)" "2 powi e"]
    by (simp_all add: z_def)
  have c: "\<bar>of_int r - z\<bar> \<le> 1 / 2" unfolding r_def by (rule round_half_even_close)
  have "z - 1 / 2 \<le> of_int r" "of_int r \<le> z + 1 / 2" using c by linarith+
  then have "(2::rat) ^ 52 - 1 < of_int r" "of_int r < (2::rat) ^ 53 + 1" using z by linarith+
  then have "(of_int (2 ^ 52 - 1) :: rat) < of_int r" "(of_int r :: rat) < of_int (2 ^ 53 + 1)"
    by simp_all
  then have "2 ^ 52 - 1 < r" "r < 2 ^ 53 + 1" by (simp_all only: of_int_less_iff)
  then have r1: "2 ^ 52 \<le> r" and r2: "r \<le> 2 ^ 53" by simp_all
  have flx: "fl x = of_int r * 2 powi e"
    using x0 by (simp add: fl_def Let_def r_def z_def e_def L_def)
  have "(2::rat) powi L = 2 ^ 52 * 2 powi e" by (simp add: e_def power_int_diff)
  also have "\<dots> \<le> of_int r * 2 powi e"
  proof (intro mult_right_mono)
    have "(of_int (2 ^ 52) :: rat) \<le> of_int r" using r1 by (simp only: of_int_le_iff)
    then show "(2::rat) ^ 52 \<le> of_int r" by simp
  qed simp
  finally have f1: "2 powi L \<le> fl x" by (simp add: flx)
  have "of_int r * 2 powi e \<le> (2::rat) ^ 53 * 2 powi e"
  proof (intro mult_right_mono)
    have "(of_int r :: rat) \<le> of_int (2 ^ 53)" using r2 by (simp only: of_int_le_iff)
    then show "of_int r \<le> (2::rat) ^ 53" by simp
  qed simp
  also have "\<dots> = 2 powi (L + 1)" by (simp add: e_def power_int_diff power_int_add)
  finally have f2: "fl x \<le> 2 powi (L + 1)" by (simp add: flx)
  have "(2::rat) powi a < 2 powi (L + 1)" using assms(1) hi by (rule le_less_trans)
  then have "a \<le> L" using powi_less_cancel by fastforce
  then have "(2::rat) powi a \<le> 2 powi L" by (intro power_int_increasing) simp_all
  then show "2 powi a \<le> fl x" using f1 by (rule order_trans)
  show "fl x \<le> 2 powi b"
  proof (cases "L + 1 \<le> b")
    case True
    then have "(2::rat) powi (L + 1) \<le> 2 powi b" by (intro power_int_increasing) simp_all
    with f2 show ?thesis by (rule order_trans)
  next
    case False
    then have "(2::rat) powi b \<le> 2 powi L" by (intro power_int_increasing) simp_all
    with lo assms(2) have "x = 2 powi b" by linarith
    then have "fl x = fl (of_int 1 * 2 powi b)" by simp
    also have "\<dots> = of_int 1 * 2 powi b" by (rule fl_exact) simp
    finally show ?thesis by simp
  qed
qed

lemma binary64_normalI:
  assumes "2 powi a \<le> x" "x \<le> 2 powi b" "- 1022 \<le> a" "b < 1024"
  shows "binary64_normal x"
proof -
  have "(2::rat) powi (- 1022) \<le> 2 powi a" using assms(3) by (intro power_int_increasing) simp_all
  moreover have "(2::rat) powi b < 2 powi 1024"
    using assms(4) by (intro power_int_strict_increasing) simp_all
  moreover have "0 < x" using assms(1) by (rule less_le_trans[rotated]) simp
  ultimately show ?thesis using assms(1,2) by (simp add: binary64_normal_def)
qed

lemma quotient_range:
  fixes x y :: rat
  assumes "2 powi a \<le> x" "x \<le> 2 powi b" "2 powi c \<le> y" "y \<le> 2 powi d"
  shows "2 powi (a - d) \<le> x / y" "x / y \<le> 2 powi (b - c)"
proof -
  have y: "0 < y" using assms(3) by (rule less_le_trans[rotated]) simp
  have x: "0 < x" using assms(1) by (rule less_le_trans[rotated]) simp
  have "(2::rat) powi (a - d) = 2 powi a / 2 powi d" by (simp add: power_int_diff)
  also have "\<dots> \<le> x / 2 powi d" using assms(1) by (simp add: divide_right_mono)
  also have "\<dots> \<le> x / y" using assms(4) x y by (intro divide_left_mono) simp_all
  finally show "2 powi (a - d) \<le> x / y" .
  have "x / y \<le> 2 powi b / y" using assms(2) y by (simp add: divide_right_mono)
  also have "\<dots> \<le> 2 powi b / 2 powi c" using assms(3) y by (intro divide_left_mono) simp_all
  also have "\<dots> = 2 powi (b - c)" by (simp add: power_int_diff)
  finally show "x / y \<le> 2 powi (b - c)" .
qed

lemma product_range:
  fixes x y :: rat
  assumes "2 powi a \<le> x" "x \<le> 2 powi b" "2 powi c \<le> y" "y \<le> 2 powi d"
  shows "2 powi (a + c) \<le> x * y" "x * y \<le> 2 powi (b + d)"
proof -
  have y: "0 < y" using assms(3) by (rule less_le_trans[rotated]) simp
  have x: "0 < x" using assms(1) by (rule less_le_trans[rotated]) simp
  have "(2::rat) powi (a + c) = 2 powi a * 2 powi c" by (simp add: power_int_add)
  also have "\<dots> \<le> x * y" using assms(1,3) x y by (intro mult_mono) simp_all
  finally show "2 powi (a + c) \<le> x * y" .
  have "x * y \<le> 2 powi b * 2 powi d" using assms(2,4) x y by (intro mult_mono) simp_all
  also have "\<dots> = 2 powi (b + d)" by (simp add: power_int_add)
  finally show "x * y \<le> 2 powi (b + d)" .
qed

lemma dim_range:
  fixes n :: int
  assumes "0 < n" "n < 2 ^ k"
  shows "(2::rat) powi 0 \<le> of_int n" "(of_int n :: rat) \<le> 2 powi (int k)"
proof -
  have "1 \<le> n" using assms(1) by simp
  then have "(of_int 1 :: rat) \<le> of_int n" by (simp only: of_int_le_iff)
  then show "(2::rat) powi 0 \<le> of_int n" by simp
  have "n \<le> 2 ^ k" using assms(2) by simp
  then have "(of_int n :: rat) \<le> of_int (2 ^ k)" by (simp only: of_int_le_iff)
  then show "(of_int n :: rat) \<le> 2 powi (int k)" by simp
qed

lemma powi_double: "(2::rat) powi (2 * b) = 2 powi b * 2 powi b"
proof -
  have "(2::rat) powi (b + b) = 2 powi b * 2 powi b" by (rule power_int_add) simp
  then show ?thesis by (simp only: mult_2)
qed

lemma fsqrt_range:
  assumes "2 powi (2 * a) \<le> x" and "x \<le> 2 powi (2 * b)"
  shows "2 powi (a - 1) \<le> fsqrt x" and "fsqrt x \<le> 2 powi (b + 1)"
proof -
  have xpos: "0 < x" using assms(1) by (rule less_le_trans[rotated]) simp
  from fsqrt_nearest[OF xpos] obtain m k where
    r: "fsqrt x = of_int m * 2 powi k" and m: "2 ^ 52 \<le> m"
    and lo: "(of_int m - 1 / 2) * (of_int m - 1 / 2) * 4 powi k \<le> x"
    and hi: "x \<le> (of_int m + 1 / 2) * (of_int m + 1 / 2) * 4 powi k"
    by blast
  define M :: rat where "M = of_int m"
  define P :: rat where "P = 2 powi k"
  have P: "0 < P" by (simp add: P_def)
  have "(1::int) \<le> m" using m by (rule order_trans[rotated]) simp
  then have "(of_int 1 :: rat) \<le> of_int m" by (simp only: of_int_le_iff)
  then have M: "1 \<le> M" by (simp add: M_def)
  have four: "(4::rat) powi k = P * P" by (simp add: four_powi P_def)
  have R: "fsqrt x = M * P" by (simp add: r M_def P_def)
  have "(M * P)\<^sup>2 = 4 * (M / 2 * (M / 2)) * (P * P)" by (simp add: power2_eq_square)
  also have "\<dots> \<le> 4 * ((M - 1 / 2) * (M - 1 / 2)) * (P * P)"
    using M P by (intro mult_right_mono mult_left_mono mult_mono) simp_all
  also have "\<dots> \<le> 4 * x" using lo by (simp add: M_def four mult.assoc)
  also have "\<dots> \<le> 4 * 2 powi (2 * b)" using assms(2) by simp
  also have "\<dots> = (2 powi (b + 1))\<^sup>2"
    by (simp add: power2_eq_square power_int_add powi_double)
  finally have "M * P \<le> 2 powi (b + 1)" by (rule power2_le_imp_le) simp
  then show "fsqrt x \<le> 2 powi (b + 1)" by (simp add: R)
  have "(2 powi (a - 1))\<^sup>2 * 4 = (2::rat) powi (2 * a)"
    by (simp add: power2_eq_square power_int_diff powi_double)
  also have "\<dots> \<le> x" by (rule assms(1))
  also have "\<dots> \<le> (M + 1 / 2) * (M + 1 / 2) * (P * P)" using hi by (simp add: M_def four)
  also have "\<dots> \<le> (2 * M) * (2 * M) * (P * P)"
    using M P by (intro mult_right_mono mult_mono) simp_all
  also have "\<dots> = (M * P)\<^sup>2 * 4" by (simp add: power2_eq_square)
  finally have "(2 powi (a - 1))\<^sup>2 \<le> (M * P)\<^sup>2" by simp
  then have "2 powi (a - 1) \<le> M * P"
    using M P by (intro power2_le_imp_le[of "2 powi (a - 1)" "M * P"]) simp_all
  then show "2 powi (a - 1) \<le> fsqrt x" by (simp add: R)
qed

lemma size_range:
  fixes n :: int
  assumes "0 < n" "n \<le> 99999"
  shows "(2::rat) powi 0 \<le> of_int n" "(of_int n :: rat) \<le> 2 powi 17"
proof -
  have "n < 2 ^ 17" using assms(2) by simp
  from dim_range[OF assms(1) this] show "(2::rat) powi 0 \<le> of_int n" "(of_int n :: rat) \<le> 2 powi 17"
    by simp_all
qed

lemma specified_side_binary64:
  assumes "0 < w" "w < 2 ^ 63" "0 < h" "h < 2 ^ 63" "0 < size'" "size' \<le> 99999"
  shows "let reference = (if shorter then min w h else max w h);
             scale = fl (of_int reference / of_int size')
         in binary64_normal (of_int reference / of_int size')
          \<and> binary64_normal (of_int w) \<and> binary64_normal (of_int h)
          \<and> binary64_normal (fl (of_int w) / scale)
          \<and> binary64_normal (fl (of_int h) / scale)"
proof -
  define reference where "reference = (if shorter then min w h else max w h)"
  define scale where "scale = fl (of_int reference / of_int size')"
  have "0 < reference" "reference < 2 ^ 63" using assms(1-4) by (auto simp add: reference_def)
  note rr = dim_range[OF this]
  note wr = dim_range[OF assms(1,2)]
  note hr = dim_range[OF assms(3,4)]
  note sr = size_range[OF assms(5,6)]
  note q = quotient_range[OF rr sr]
  note sc = fl_range[OF q, folded scale_def]
  note fw = fl_range[OF wr]
  note fh = fl_range[OF hr]
  have "binary64_normal (of_int reference / of_int size')"
    using q by (rule binary64_normalI) simp_all
  moreover have "binary64_normal (of_int w)" "binary64_normal (of_int h)"
    by (rule binary64_normalI[OF wr], simp, simp, rule binary64_normalI[OF hr], simp, simp)
  moreover have "binary64_normal (fl (of_int w) / scale)"
    using quotient_range[OF fw sc] by (rule binary64_normalI) simp_all
  moreover have "binary64_normal (fl (of_int h) / scale)"
    using quotient_range[OF fh sc] by (rule binary64_normalI) simp_all
  ultimately show ?thesis
    unfolding Let_def reference_def[symmetric] scale_def[symmetric] by blast
qed

lemma sd_dimensions_get_range:
  assumes "sd_dimensions_get k = (tw, th)"
  shows "(2::rat) powi 18 \<le> of_int (tw * th)" "(of_int (tw * th) :: rat) \<le> 2 powi 21"
proof -
  have "2 ^ 18 \<le> tw * th \<and> tw * th \<le> 2 ^ 21"
    using assms by (auto simp add: sd_dimensions_get_def sd_dimensions_def split: if_splits)
  then have "(of_int (2 ^ 18) :: rat) \<le> of_int (tw * th)" "(of_int (tw * th) :: rat) \<le> of_int (2 ^ 21)"
    by (simp_all only: of_int_le_iff)
  then show "(2::rat) powi 18 \<le> of_int (tw * th)" "(of_int (tw * th) :: rat) \<le> 2 powi 21"
    by simp_all
qed

lemma sd_models_binary64:
  assumes "0 < w" "w < 2 ^ 63" "0 < h" "h < 2 ^ 63" "sd_dimensions_get k = (tw, th)"
  shows "let ratio = of_int (tw * th) / of_int (w * h);
             scale = fsqrt (fl ratio)
         in binary64_normal ratio \<and> binary64_normal scale
          \<and> binary64_normal (of_int w) \<and> binary64_normal (of_int h)
          \<and> binary64_normal (fl (of_int w) * scale)
          \<and> binary64_normal (fl (of_int h) * scale)"
proof -
  define ratio :: rat where "ratio = of_int (tw * th) / of_int (w * h)"
  define scale where "scale = fsqrt (fl ratio)"
  note wr = dim_range[OF assms(1,2)]
  note hr = dim_range[OF assms(3,4)]
  note tr = sd_dimensions_get_range[OF assms(5)]
  have whr: "(2::rat) powi (0 + 0) \<le> of_int (w * h)" "(of_int (w * h) :: rat) \<le> 2 powi (int 63 + int 63)"
    using product_range[OF wr hr] by simp_all
  note q = quotient_range[OF tr whr, folded ratio_def]
  have q': "2 powi (2 * (- 54)) \<le> fl ratio" "fl ratio \<le> 2 powi (2 * 11)"
  proof -
    have "(2::rat) powi (2 * (- 54)) \<le> 2 powi (18 - (int 63 + int 63))"
      by (intro power_int_increasing) simp_all
    then show "2 powi (2 * (- 54)) \<le> fl ratio" using fl_range(1)[OF q] by (rule order_trans)
    have "(2::rat) powi (21 - (0 + 0)) \<le> 2 powi (2 * 11)"
      by (intro power_int_increasing) simp_all
    with fl_range(2)[OF q] show "fl ratio \<le> 2 powi (2 * 11)" by (rule order_trans)
  qed
  note sc = fsqrt_range[OF q', folded scale_def]
  note fw = fl_range[OF wr]
  note fh = fl_range[OF hr]
  have "binary64_normal ratio" using q by (rule binary64_normalI) simp_all
  moreover have "binary64_normal scale" using sc by (rule binary64_normalI) simp_all
  moreover have "binary64_normal (of_int w)" "binary64_normal (of_int h)"
    by (rule binary64_normalI[OF wr], simp, simp, rule binary64_normalI[OF hr], simp, simp)
  moreover have "binary64_normal (fl (of_int w) * scale)"
    using product_range[OF fw sc] by (rule binary64_normalI) simp_all
  moreover have "binary64_normal (fl (of_int h) * scale)"
    using product_range[OF fh sc] by (rule binary64_normalI) simp_all
  ultimately show ?thesis
    unfolding Let_def ratio_def[symmetric] scale_def[symmetric] by blast
qed

lemma scale_ratio_binary64:
  assumes "0 < w" "w < 2 ^ 63" "0 < h" "h < 2 ^ 63" "0 \<le> target_max_size" "target_max_size \<le> 99999"
  shows "let rescale_ratio = fl (of_int target_max_size / of_int (max w h))
         in binary64_normal (of_int target_max_size / of_int (max w h))
          \<and> binary64_normal (of_int w) \<and> binary64_normal (of_int h)
          \<and> binary64_normal (fl (of_int w) * rescale_ratio)
          \<and> binary64_normal (fl (of_int h) * rescale_ratio)"
proof (cases "target_max_size = 0")
  case True
  note wr = dim_range[OF assms(1,2)]
  note hr = dim_range[OF assms(3,4)]
  have "binary64_normal (of_int w)" "binary64_normal (of_int h)"
    by (rule binary64_normalI[OF wr], simp, simp, rule binary64_normalI[OF hr], simp, simp)
  then show ?thesis using True by (simp add: Let_def fl_zero binary64_normal_def)
next
  case False
  then have t: "0 < target_max_size" using assms(5) by simp
  define rescale_ratio where "rescale_ratio = fl (of_int target_max_size / of_int (max w h))"
  have "0 < max w h" "max w h < 2 ^ 63" using assms(1-4) by auto
  note mr = dim_range[OF this]
  note wr = dim_range[OF assms(1,2)]
  note hr = dim_range[OF assms(3,4)]
  note tr = size_range[OF t assms(6)]
  note q = quotient_range[OF tr mr]
  note sc = fl_range[OF q, folded rescale_ratio_def]
  note fw = fl_range[OF wr]
  note fh = fl_range[OF hr]
  have "binary64_normal (of_int target_max_size / of_int (max w h))"
    using q by (rule binary64_normalI) simp_all
  moreover have "binary64_normal (of_int w)" "binary64_normal (of_int h)"
    by (rule binary64_normalI[OF wr], simp, simp, rule binary64_normalI[OF hr], simp, simp)
  moreover have "binary64_normal (fl (of_int w) * rescale_ratio)"
    using product_range[OF fw sc] by (rule binary64_normalI) simp_all
  moreover have "binary64_normal (fl (of_int h) * rescale_ratio)"
    using product_range[OF fh sc] by (rule binary64_normalI) simp_all
  ultimately show ?thesis
    unfolding Let_def rescale_ratio_def[symmetric] by blast
qed

section \<open>Facts about arrays and borders\<close>

lemma map2_replicate_left:
  "length ys = n \<Longrightarrow> map2 f (replicate n x) ys = map (f x) ys"
  by (induction ys arbitrary: n) auto

lemma assign_slice_frame:
  assumes "length src = h" and "\<forall>row \<in> set src. length row = w"
  shows "assign_slice (np_full (h + 2 * e) (w + 2 * e) v) e e src =
           replicate e (replicate (w + 2 * e) v)
           @ map (\<lambda>srow. replicate e v @ srow @ replicate e v) src
           @ replicate e (replicate (w + 2 * e) v)"
proof -
  have row: "assign_row (replicate (w + 2 * e) v) e srow = replicate e v @ srow @ replicate e v"
    if "srow \<in> set src" for srow
    using assms(2) that by (simp add: assign_row_def)
  have "map2 (\<lambda>crow srow. assign_row crow e srow) (replicate h (replicate (w + 2 * e) v)) src
      = map (\<lambda>srow. replicate e v @ srow @ replicate e v) src"
    using assms(1) row by (simp add: map2_replicate_left)
  then show ?thesis
    using assms(1) by (simp add: assign_slice_def np_full_def min_def)
qed

lemma frame_length: "length (frame e w v src) = length src + 2 * e"
  by (simp add: frame_def)

lemma frame_row_length:
  assumes "\<forall>row \<in> set src. length row = w" "row \<in> set (frame e w v src)"
  shows "length row = w + 2 * e"
  using assms by (auto simp add: frame_def)

lemma frame_nth:
  assumes "\<forall>row \<in> set src. length row = w" "i < length src + 2 * e" "j < w + 2 * e"
  shows "frame e w v src ! i ! j =
    (if e \<le> i \<and> i < e + length src \<and> e \<le> j \<and> j < e + w then src ! (i - e) ! (j - e) else v)"
proof -
  consider "i < e" | "e \<le> i" "i < e + length src" | "e + length src \<le> i" by linarith
  then show ?thesis
  proof cases
    case 1
    then show ?thesis using assms(3) by (simp add: frame_def nth_append)
  next
    case 2
    then have ie: "i - e < length src" by linarith
    then have r: "frame e w v src ! i = replicate e v @ src ! (i - e) @ replicate e v"
      using 2 by (simp add: frame_def nth_append)
    have len: "length (src ! (i - e)) = w" using assms(1) ie by simp
    show ?thesis using 2 assms(3) len by (auto simp add: r nth_append)
  next
    case 3
    then have "\<not> i < e" "\<not> i - e < length src" "i - e - length src < e"
      using assms(2) by linarith+
    then have "frame e w v src ! i = replicate (w + 2 * e) v"
      by (simp add: frame_def nth_append)
    then show ?thesis using 3 assms(3) by simp
  qed
qed

lemma crop_back_frame:
  assumes "\<forall>row \<in> set src. length row = w"
  shows "crop_back e (frame e w v src) = src"
proof -
  have "map (\<lambda>row. take (length row - 2 * e) (drop e row)) (map (\<lambda>srow. replicate e v @ srow @ replicate e v) src) = src"
    using assms by (induction src) auto
  then show ?thesis by (simp add: crop_back_def frame_def)
qed

lemma shape_w_frame: "0 < length src + 2 * e \<Longrightarrow> \<forall>row \<in> set src. length row = w \<Longrightarrow> shape_w (frame e w v src) = w + 2 * e"
  using frame_row_length[of src w _ e v] frame_length[of e w v src]
  by (cases "frame e w v src") (auto simp add: shape_w_def)

lemma is_matrix_frame:
  assumes "\<forall>row \<in> set src. length row = w" "0 < length src + 2 * e"
  shows "is_matrix (frame e w v src)"
  unfolding is_matrix_def shape_w_frame[OF assms(2,1)]
  using frame_row_length[OF assms(1)] by blast

lemma is_arrayD:
  assumes "is_array a"
  shows "\<forall>row \<in> set a. length row = shape_w a" "\<forall>row \<in> set a. \<forall>p \<in> set row. length p = shape_c a"
  using assms by (simp_all add: is_array_def is_matrix_def)

lemma add_border_unfold:
  assumes "is_array image0" and "shape_c image0 = 3" and "0 \<le> border_width"
  shows "add_border (image0 # rest) border_width border_ratio r g b =
    (let e = nat (final_border_width image0 border_width border_ratio)
     in Inr ([frame e (shape_w image0) [b, g, r] image0],
             [frame e (shape_w image0) 1 (np_full (shape_h image0) (shape_w image0) 0)]))"
proof -
  define e where "e = nat (final_border_width image0 border_width border_ratio)"
  have f: "0 \<le> final_border_width image0 border_width border_ratio"
    using assms(3) by (simp add: final_border_width_def Let_def)
  have rows: "\<forall>row \<in> set image0. length row = shape_w image0" using assms(1) by (rule is_arrayD)
  have a: "assign_slice (np_full (shape_h image0 + 2 * e) (shape_w image0 + 2 * e) [b, g, r]) e e image0
     = frame e (shape_w image0) [b, g, r] image0"
    unfolding frame_def by (rule assign_slice_frame) (simp_all add: shape_h_def rows)
  have m: "assign_slice (np_full (shape_h image0 + 2 * e) (shape_w image0 + 2 * e) (1::rat)) e e
      (np_full (shape_h image0) (shape_w image0) 0)
     = frame e (shape_w image0) 1 (np_full (shape_h image0) (shape_w image0) 0)"
    unfolding frame_def by (rule assign_slice_frame) (simp_all add: np_full_def)
  show ?thesis
    using f assms(2)
    by (simp add: add_border_def tensor2np_def np2tensor_def unsqueeze0_def Let_def
          e_def[symmetric] a m)
qed

lemma shape_c_frame:
  assumes "is_array image0" "shape_c image0 = 3"
  shows "shape_c (frame e (shape_w image0) [b, g, r] image0) = 3"
proof -
  from assms(2) obtain p row rows where i: "image0 = (p # row) # rows"
    by (auto simp add: shape_c_def split: list.splits)
  then have "length p = 3" using assms(2) by (simp add: shape_c_def)
  then show ?thesis by (cases e) (simp_all add: frame_def shape_c_def i)
qed

lemma is_array_frame:
  assumes "is_array image0" "shape_c image0 = 3"
  shows "is_array (frame e (shape_w image0) [b, g, r] image0)"
proof -
  have rows: "\<forall>row \<in> set image0. length row = shape_w image0"
    and px: "\<forall>row \<in> set image0. \<forall>p \<in> set row. length p = 3"
    using is_arrayD[OF assms(1)] assms(2) by simp_all
  from assms(2) have "image0 \<noteq> []" by (auto simp add: shape_c_def)
  then have pos: "0 < length image0 + 2 * e" by simp
  have "\<forall>row \<in> set (frame e (shape_w image0) [b, g, r] image0). \<forall>p \<in> set row. length p = 3"
    using px by (auto simp add: frame_def)
  then show ?thesis
    using is_matrix_frame[OF rows pos] by (simp add: is_array_def shape_c_frame[OF assms])
qed

section \<open>Facts about bounding boxes and cropping\<close>

lemma filter_upt_Nil: "filter P [0..<n] = [] \<longleftrightarrow> (\<forall>i<n. \<not> P i)"
  by (auto simp add: filter_empty_conv)

lemma filter_upt_first:
  assumes "filter P [0..<n] = x # xs"
  shows "P x" "x < n" "\<forall>i<x. \<not> P i"
proof -
  have mem: "x \<in> set (filter P [0..<n])" by (simp add: assms)
  then show "P x" "x < n" by simp_all
  have "sorted (filter P [0..<n])" by (rule sorted_filter[of id, simplified]) simp
  then have le: "\<forall>y \<in> set (filter P [0..<n]). x \<le> y" by (auto simp add: assms)
  show "\<forall>i<x. \<not> P i"
  proof (intro allI impI notI)
    fix i assume "i < x" "P i"
    then have "i \<in> set (filter P [0..<n])" using \<open>x < n\<close> by simp
    then have "x \<le> i" using le by blast
    then show False using \<open>i < x\<close> by simp
  qed
qed

lemma sorted_le_last: "sorted xs \<Longrightarrow> y \<in> set xs \<Longrightarrow> y \<le> last (xs :: nat list)"
  by (induction xs) (auto)

lemma filter_upt_last:
  assumes "filter P [0..<n] = x # xs"
  shows "P (last (x # xs))" "last (x # xs) < n" "\<forall>i. last (x # xs) < i \<and> i < n \<longrightarrow> \<not> P i"
proof -
  have "last (x # xs) \<in> set (filter P [0..<n])" unfolding assms by (rule last_in_set) simp
  then show a: "P (last (x # xs))" "last (x # xs) < n" by simp_all
  have s: "sorted (filter P [0..<n])" by (rule sorted_filter[of id, simplified]) simp
  show "\<forall>i. last (x # xs) < i \<and> i < n \<longrightarrow> \<not> P i"
  proof (intro allI impI notI)
    fix i assume i: "last (x # xs) < i \<and> i < n" and "P i"
    then have "i \<in> set (filter P [0..<n])" by simp
    from sorted_le_last[OF s this] have "i \<le> last (x # xs)" by (simp add: assms)
    then show False using i by simp
  qed
qed

lemma nonzero_rows_eq:
  assumes "is_matrix g"
  shows "nonzero_rows g = filter (\<lambda>i. \<exists>j< shape_w g. g ! i ! j \<noteq> 0) [0..< length g]"
  unfolding nonzero_rows_def shape_h_def
proof (rule filter_cong[OF refl])
  fix i assume "i \<in> set [0..< length g]"
  then have "length (g ! i) = shape_w g" using assms by (simp add: is_matrix_def)
  then show "(\<exists>v \<in> set (g ! i). v \<noteq> 0) = (\<exists>j< shape_w g. g ! i ! j \<noteq> 0)"
    by (metis in_set_conv_nth)
qed

lemma nonzero_cols_eq:
  "nonzero_cols g = filter (\<lambda>j. \<exists>i< length g. g ! i ! j \<noteq> 0) [0..< shape_w g]"
  unfolding nonzero_cols_def
  by (rule filter_cong[OF refl]) (metis in_set_conv_nth)

lemma getbbox_None_iff:
  assumes "is_matrix g"
  shows "getbbox g = None \<longleftrightarrow> (\<forall>i< length g. \<forall>j< shape_w g. g ! i ! j = 0)"
proof -
  have r: "nonzero_rows g = [] \<longleftrightarrow> (\<forall>i< length g. \<forall>j< shape_w g. g ! i ! j = 0)"
    unfolding nonzero_rows_eq[OF assms] filter_upt_Nil by blast
  have c: "nonzero_cols g = [] \<longleftrightarrow> (\<forall>i< length g. \<forall>j< shape_w g. g ! i ! j = 0)"
    unfolding nonzero_cols_eq filter_upt_Nil by blast
  have "getbbox g = None \<longleftrightarrow> nonzero_cols g = [] \<or> nonzero_rows g = []"
    by (simp add: getbbox_def split: list.splits)
  then show ?thesis using r c by blast
qed

lemma getbbox_Some:
  assumes "is_matrix g" and "getbbox g = Some (l, u, r, d)"
  shows "l < r" "r \<le> shape_w g" "u < d" "d \<le> length g"
    and "\<forall>i< length g. \<forall>j< shape_w g. g ! i ! j \<noteq> 0 \<longrightarrow> u \<le> i \<and> i < d \<and> l \<le> j \<and> j < r"
    and "\<exists>j< shape_w g. g ! u ! j \<noteq> 0" "\<exists>j< shape_w g. g ! (d - 1) ! j \<noteq> 0"
    and "\<exists>i< length g. g ! i ! l \<noteq> 0" "\<exists>i< length g. g ! i ! (r - 1) \<noteq> 0"
proof -
  from assms(2) obtain js ks where
    cs: "nonzero_cols g = l # js" and rs: "nonzero_rows g = u # ks"
    and r: "r = last (l # js) + 1" and d: "d = last (u # ks) + 1"
    by (auto simp add: getbbox_def split: list.splits)
  note cf = filter_upt_first[OF cs[unfolded nonzero_cols_eq]]
  note cl = filter_upt_last[OF cs[unfolded nonzero_cols_eq]]
  note rf = filter_upt_first[OF rs[unfolded nonzero_rows_eq[OF assms(1)]]]
  note rl = filter_upt_last[OF rs[unfolded nonzero_rows_eq[OF assms(1)]]]
  have sc: "sorted (nonzero_cols g)"
    unfolding nonzero_cols_eq by (rule sorted_filter[of id, simplified]) simp
  have sr: "sorted (nonzero_rows g)"
    unfolding nonzero_rows_eq[OF assms(1)] by (rule sorted_filter[of id, simplified]) simp
  have ll: "l \<le> last (l # js)"
    by (rule sorted_le_last[OF sc[unfolded cs]]) (rule list.set_intros(1))
  have uu: "u \<le> last (u # ks)"
    by (rule sorted_le_last[OF sr[unfolded rs]]) (rule list.set_intros(1))
  show "l < r" using ll r by simp
  show "r \<le> shape_w g" using cl(2) r by simp
  show "u < d" using uu d by simp
  show "d \<le> length g" using rl(2) d by simp
  show "\<forall>i< length g. \<forall>j< shape_w g. g ! i ! j \<noteq> 0 \<longrightarrow> u \<le> i \<and> i < d \<and> l \<le> j \<and> j < r"
  proof (intro allI impI)
    fix i j assume i: "i < length g" and j: "j < shape_w g" and nz: "g ! i ! j \<noteq> 0"
    have "u \<le> i" using rf(3) i j nz by (meson not_le_imp_less)
    moreover have "i \<le> last (u # ks)" using rl(3) i j nz by (meson not_le_imp_less)
    moreover have "l \<le> j" using cf(3) i j nz by (meson not_le_imp_less)
    moreover have "j \<le> last (l # js)" using cl(3) i j nz by (meson not_le_imp_less)
    ultimately show "u \<le> i \<and> i < d \<and> l \<le> j \<and> j < r" using r d by simp
  qed
  show "\<exists>j< shape_w g. g ! u ! j \<noteq> 0" using rf(1) .
  show "\<exists>j< shape_w g. g ! (d - 1) ! j \<noteq> 0" using rl(1) d by simp
  show "\<exists>i< length g. g ! i ! l \<noteq> 0" using cf(1) .
  show "\<exists>i< length g. g ! i ! (r - 1) \<noteq> 0" using cl(1) r by simp
qed

lemma getbbox_full:
  assumes "is_matrix g" and "0 < length g" and "0 < shape_w g"
    and "\<exists>j< shape_w g. g ! 0 ! j \<noteq> 0" and "\<exists>j< shape_w g. g ! (length g - 1) ! j \<noteq> 0"
    and "\<exists>i< length g. g ! i ! 0 \<noteq> 0" and "\<exists>i< length g. g ! i ! (shape_w g - 1) \<noteq> 0"
  shows "getbbox g = Some (0, 0, shape_w g, length g)"
proof -
  have "getbbox g \<noteq> None"
    using assms(2,4) by (auto simp add: getbbox_None_iff[OF assms(1)])
  then obtain l u r d where b: "getbbox g = Some (l, u, r, d)" by (cases "getbbox g") auto
  note p = getbbox_Some[OF assms(1) b]
  from assms(4) obtain j where "j < shape_w g" "g ! 0 ! j \<noteq> 0" by blast
  with p(5) assms(2) have "u = 0" by fastforce
  from assms(5) obtain j' where "j' < shape_w g" "g ! (length g - 1) ! j' \<noteq> 0" by blast
  with p(5) assms(2) have "length g - 1 < d" by (metis diff_less zero_less_one)
  with p(4) have "d = length g" by linarith
  from assms(6) obtain i where "i < length g" "g ! i ! 0 \<noteq> 0" by blast
  with p(5) assms(3) have "l = 0" by fastforce
  from assms(7) obtain i' where "i' < length g" "g ! i' ! (shape_w g - 1) \<noteq> 0" by blast
  with p(5) assms(3) have "shape_w g - 1 < r" by (metis diff_less zero_less_one)
  with p(2) have "r = shape_w g" by linarith
  show ?thesis using b \<open>u = 0\<close> \<open>l = 0\<close> \<open>d = length g\<close> \<open>r = shape_w g\<close> by simp
qed

lemma crop_length: "d \<le> length a \<Longrightarrow> length (crop a (l, u, r, d)) = d - u"
  by (simp add: crop_def)

lemma crop_row_length:
  assumes "is_matrix a" "r \<le> shape_w a" "row \<in> set (crop a (l, u, r, d))"
  shows "length row = r - l"
proof -
  from assms(3) obtain row' where "row' \<in> set a" "row = take (r - l) (drop l row')"
    by (auto simp add: crop_def dest!: in_set_takeD in_set_dropD)
  then show ?thesis using assms(1,2) by (simp add: is_matrix_def)
qed

lemma crop_nth:
  assumes "is_matrix a" "d \<le> length a" "r \<le> shape_w a" "i < d - u" "j < r - l"
  shows "crop a (l, u, r, d) ! i ! j = a ! (u + i) ! (l + j)"
proof -
  have "u + i < length a" using assms(2,4) by linarith
  then have "length (a ! (u + i)) = shape_w a" using assms(1) by (simp add: is_matrix_def)
  then have "l + j < length (a ! (u + i))" using assms(3,5) by linarith
  then show ?thesis using assms(2,4,5) by (simp add: crop_def)
qed

lemma shape_w_crop:
  assumes "is_matrix a" "d \<le> length a" "r \<le> shape_w a" "u < d"
  shows "shape_w (crop a (l, u, r, d)) = r - l"
proof -
  have "0 < length (crop a (l, u, r, d))" using assms(2,4) by (simp add: crop_length)
  then obtain row rows where c: "crop a (l, u, r, d) = row # rows"
    by (cases "crop a (l, u, r, d)") auto
  then have "row \<in> set (crop a (l, u, r, d))" by simp
  from crop_row_length[OF assms(1,3) this] show ?thesis by (simp add: shape_w_def c)
qed

lemma is_matrix_crop:
  assumes "is_matrix a" "d \<le> length a" "r \<le> shape_w a" "u < d"
  shows "is_matrix (crop a (l, u, r, d))"
  unfolding is_matrix_def shape_w_crop[OF assms]
  using crop_row_length[OF assms(1,3)] by blast

lemma crop_map: "crop (map (map f) a) box = map (map f) (crop a box)"
  by (cases box) (simp add: crop_def take_map drop_map)

lemma crop_full:
  assumes "is_matrix a"
  shows "crop a (0, 0, shape_w a, length a) = a"
proof -
  have "map (\<lambda>row. take (shape_w a) row) a = a"
    using assms by (intro map_idI) (simp add: is_matrix_def)
  then show ?thesis by (simp add: crop_def)
qed

lemma binarize_map:
  "binarize img threshold = map (map (\<lambda>p. if rgb2l p > threshold then 255 else 0)) img"
  by (simp add: binarize_def point_def convert_L_def comp_def)

lemma shape_w_map: "shape_w (map (map f) a) = shape_w a"
  by (cases a) (simp_all add: shape_w_def)

lemma is_matrix_map: "is_matrix a \<Longrightarrow> is_matrix (map (map f) a)"
  by (simp add: is_matrix_def shape_w_map)

lemma binarize_shape:
  "length (binarize img t) = length img" "shape_w (binarize img t) = shape_w img"
  "is_matrix img \<Longrightarrow> is_matrix (binarize img t)"
  by (simp_all add: binarize_map shape_w_map is_matrix_map)

lemma binarize_nth:
  assumes "is_matrix img" "i < length img" "j < shape_w img"
  shows "binarize img t ! i ! j = (if t < rgb2l (img ! i ! j) then 255 else 0)"
proof -
  have "length (img ! i) = shape_w img" using assms(1,2) by (simp add: is_matrix_def)
  then show ?thesis using assms(2,3) by (simp add: binarize_map)
qed

lemma trim_unfold:
  assumes "shape_c image0 = 3 \<or> shape_c image0 = 4"
  shows "TrimImageBorders_run (image0 # rest) threshold =
    Inr [case getbbox (binarize image0 threshold) of Some bbox \<Rightarrow> crop image0 bbox | None \<Rightarrow> image0]"
  using assms
  by (auto simp add: TrimImageBorders_run_def fromarray_def tensor2np_def np2tensor_def
        unsqueeze0_def Let_def binarize_def)

lemma trim_empty:
  assumes "is_array image0" and "shape_c image0 = 3 \<or> shape_c image0 = 4"
    and "\<forall>i < shape_h image0. \<forall>j < shape_w image0. \<not> threshold < rgb2l (image0 ! i ! j)"
  shows "TrimImageBorders_run (image0 # rest) threshold = Inr [image0]"
proof -
  have m: "is_matrix image0" using assms(1) by (simp add: is_array_def)
  have "getbbox (binarize image0 threshold) = None"
    unfolding getbbox_None_iff[OF binarize_shape(3)[OF m]] binarize_shape
    using assms(3) by (simp add: binarize_nth[OF m] shape_h_def)
  then show ?thesis by (simp add: trim_unfold[OF assms(2)])
qed

lemma trim_box:
  assumes "is_array image0" and "shape_c image0 = 3 \<or> shape_c image0 = 4"
    and "\<not> (\<forall>i < shape_h image0. \<forall>j < shape_w image0. \<not> threshold < rgb2l (image0 ! i ! j))"
  shows "\<exists>l u r d. getbbox (binarize image0 threshold) = Some (l, u, r, d)
      \<and> TrimImageBorders_run (image0 # rest) threshold = Inr [crop image0 (l, u, r, d)]
      \<and> l < r \<and> r \<le> shape_w image0 \<and> u < d \<and> d \<le> shape_h image0
      \<and> (\<forall>i < shape_h image0. \<forall>j < shape_w image0.
            threshold < rgb2l (image0 ! i ! j) \<longrightarrow> u \<le> i \<and> i < d \<and> l \<le> j \<and> j < r)
      \<and> (\<exists>j < shape_w image0. threshold < rgb2l (image0 ! u ! j))
      \<and> (\<exists>j < shape_w image0. threshold < rgb2l (image0 ! (d - 1) ! j))
      \<and> (\<exists>i < shape_h image0. threshold < rgb2l (image0 ! i ! l))
      \<and> (\<exists>i < shape_h image0. threshold < rgb2l (image0 ! i ! (r - 1)))"
proof -
  define g where "g = binarize image0 threshold"
  have m: "is_matrix image0" using assms(1) by (simp add: is_array_def)
  have gm: "is_matrix g" and gl: "length g = shape_h image0" and gw: "shape_w g = shape_w image0"
    using m by (simp_all add: g_def binarize_shape shape_h_def)
  have nz: "g ! i ! j \<noteq> 0 \<longleftrightarrow> threshold < rgb2l (image0 ! i ! j)"
    if "i < shape_h image0" "j < shape_w image0" for i j
    using that by (simp add: g_def binarize_nth[OF m] shape_h_def)
  have "getbbox g \<noteq> None"
    unfolding getbbox_None_iff[OF gm] gl gw using assms(3) nz by auto
  then obtain l u r d where b: "getbbox g = Some (l, u, r, d)" by (cases "getbbox g") auto
  note p = getbbox_Some[OF gm b, unfolded gl gw]
  have run: "TrimImageBorders_run (image0 # rest) threshold = Inr [crop image0 (l, u, r, d)]"
    using b by (simp add: trim_unfold[OF assms(2)] g_def)
  have u: "u < shape_h image0" and d: "d - 1 < shape_h image0"
    and l: "l < shape_w image0" and r: "r - 1 < shape_w image0"
    using p(1-4) by linarith+
  have c5: "\<forall>i < shape_h image0. \<forall>j < shape_w image0.
      threshold < rgb2l (image0 ! i ! j) \<longrightarrow> u \<le> i \<and> i < d \<and> l \<le> j \<and> j < r"
    using p(5) nz by blast
  have c6: "\<exists>j < shape_w image0. threshold < rgb2l (image0 ! u ! j)"
    using p(6) nz[OF u] by blast
  have c7: "\<exists>j < shape_w image0. threshold < rgb2l (image0 ! (d - 1) ! j)"
    using p(7) nz[OF d] by blast
  have c8: "\<exists>i < shape_h image0. threshold < rgb2l (image0 ! i ! l)"
    using p(8) nz[OF _ l] by blast
  have c9: "\<exists>i < shape_h image0. threshold < rgb2l (image0 ! i ! (r - 1))"
    using p(9) nz[OF _ r] by blast
  show ?thesis
    using b[unfolded g_def] run p(1-4) c5 c6 c7 c8 c9 by blast
qed

lemma trim_twice_same:
  assumes "is_array image0" and "shape_c image0 = 3 \<or> shape_c image0 = 4"
  shows "\<exists>out. TrimImageBorders_run (image0 # rest) threshold = Inr [out]
           \<and> TrimImageBorders_run [out] threshold = Inr [out]"
proof (cases "\<forall>i < shape_h image0. \<forall>j < shape_w image0. \<not> threshold < rgb2l (image0 ! i ! j)")
  case True
  from trim_empty[OF assms True] show ?thesis by blast
next
  case False
  from trim_box[OF assms False, of rest] obtain l u r d where
    b: "getbbox (binarize image0 threshold) = Some (l, u, r, d)"
    and run: "TrimImageBorders_run (image0 # rest) threshold = Inr [crop image0 (l, u, r, d)]"
    and lr: "l < r" and rw: "r \<le> shape_w image0" and ud: "u < d" and dh: "d \<le> shape_h image0"
    and inside: "\<forall>i < shape_h image0. \<forall>j < shape_w image0.
            threshold < rgb2l (image0 ! i ! j) \<longrightarrow> u \<le> i \<and> i < d \<and> l \<le> j \<and> j < r"
    and e1: "\<exists>j < shape_w image0. threshold < rgb2l (image0 ! u ! j)"
    and e2: "\<exists>j < shape_w image0. threshold < rgb2l (image0 ! (d - 1) ! j)"
    and e3: "\<exists>i < shape_h image0. threshold < rgb2l (image0 ! i ! l)"
    and e4: "\<exists>i < shape_h image0. threshold < rgb2l (image0 ! i ! (r - 1))"
    by blast
  define out where "out = crop image0 (l, u, r, d)"
  have m: "is_matrix image0" using assms(1) by (simp add: is_array_def)
  have dl: "d \<le> length image0" using dh by (simp add: shape_h_def)
  have om: "is_matrix out" and ol: "length out = d - u" and ow: "shape_w out = r - l"
    unfolding out_def
    using is_matrix_crop[OF m dl rw ud] crop_length[OF dl] shape_w_crop[OF m dl rw ud] by simp_all
  have on: "out ! i ! j = image0 ! (u + i) ! (l + j)" if "i < d - u" "j < r - l" for i j
    unfolding out_def using crop_nth[OF m dl rw that] .
  have bright: "threshold < rgb2l (out ! i ! j) \<longleftrightarrow> threshold < rgb2l (image0 ! (u + i) ! (l + j))"
    if "i < d - u" "j < r - l" for i j
    using on[OF that] by simp
  \<comment> \<open>the cropped image has three or four channels\<close>
  have "out ! 0 ! 0 = image0 ! u ! l" using on[of 0 0] ud lr by simp
  moreover have "image0 ! u \<in> set image0" using ud dl by simp
  moreover have "image0 ! u ! l \<in> set (image0 ! u)"
    using m ud dl lr rw by (simp add: is_matrix_def)
  ultimately have "length (out ! 0 ! 0) = shape_c image0"
    using is_arrayD(2)[OF assms(1)] by simp
  moreover have "out \<noteq> []" using ol ud by auto
  moreover have "out ! 0 \<noteq> []"
  proof -
    have "out ! 0 \<in> set out" using ol ud by simp
    then have "length (out ! 0) = r - l" using om ow by (simp add: is_matrix_def)
    then show ?thesis using lr by auto
  qed
  ultimately have oc: "shape_c out = 3 \<or> shape_c out = 4"
    using assms(2) by (cases out; cases "out ! 0") (auto simp add: shape_c_def)
  \<comment> \<open>its bounding box is the whole image\<close>
  define g where "g = binarize out threshold"
  have gm: "is_matrix g" and gl: "length g = d - u" and gw: "shape_w g = r - l"
    using om ol ow by (simp_all add: g_def binarize_shape)
  have nz: "g ! i ! j \<noteq> 0 \<longleftrightarrow> threshold < rgb2l (image0 ! (u + i) ! (l + j))"
    if "i < d - u" "j < r - l" for i j
    using that bright[OF that] by (simp add: g_def binarize_nth[OF om] ol ow)
  have f1: "\<exists>j < shape_w g. g ! 0 ! j \<noteq> 0"
  proof -
    from e1 obtain j where j: "j < shape_w image0" "threshold < rgb2l (image0 ! u ! j)" by blast
    with inside ud dh have "l \<le> j" "j < r" by (metis less_le_trans)+
    then have "j - l < r - l" "l + (j - l) = j" by linarith+
    then show ?thesis using nz[of 0 "j - l"] j(2) ud by (auto simp add: gw)
  qed
  have f2: "\<exists>j < shape_w g. g ! (length g - 1) ! j \<noteq> 0"
  proof -
    from e2 obtain j where j: "j < shape_w image0" "threshold < rgb2l (image0 ! (d - 1) ! j)" by blast
    have "d - 1 < shape_h image0" using ud dh by linarith
    with inside j have "l \<le> j" "j < r" by blast+
    then have "j - l < r - l" "l + (j - l) = j" by linarith+
    moreover have "d - u - 1 < d - u" "u + (d - u - 1) = d - 1" using ud by linarith+
    ultimately show ?thesis using nz[of "d - u - 1" "j - l"] j(2) by (auto simp add: gw gl)
  qed
  have f3: "\<exists>i < length g. g ! i ! 0 \<noteq> 0"
  proof -
    from e3 obtain i where i: "i < shape_h image0" "threshold < rgb2l (image0 ! i ! l)" by blast
    have "l < shape_w image0" using lr rw by linarith
    with inside i have "u \<le> i" "i < d" by blast+
    then have "i - u < d - u" "u + (i - u) = i" by linarith+
    then show ?thesis using nz[of "i - u" 0] i(2) lr by (auto simp add: gl)
  qed
  have f4: "\<exists>i < length g. g ! i ! (shape_w g - 1) \<noteq> 0"
  proof -
    from e4 obtain i where i: "i < shape_h image0" "threshold < rgb2l (image0 ! i ! (r - 1))" by blast
    have "r - 1 < shape_w image0" using lr rw by linarith
    with inside i have "u \<le> i" "i < d" by blast+
    then have "i - u < d - u" "u + (i - u) = i" by linarith+
    moreover have "r - l - 1 < r - l" "l + (r - l - 1) = r - 1" using lr by linarith+
    ultimately show ?thesis using nz[of "i - u" "r - l - 1"] i(2) by (auto simp add: gl gw)
  qed
  have "getbbox g = Some (0, 0, shape_w g, length g)"
    using gm _ _ f1 f2 f3 f4 by (rule getbbox_full) (simp_all add: gl gw ud lr)
  then have "getbbox g = Some (0, 0, shape_w out, length out)"
    by (simp only: gl gw ol ow)
  then have "getbbox (binarize out threshold) = Some (0, 0, shape_w out, length out)"
    by (simp only: g_def)
  then have "TrimImageBorders_run [out] threshold = Inr [out]"
    by (simp add: trim_unfold[OF oc] crop_full[OF om])
  then show ?thesis using run by (simp add: out_def)
qed

section \<open>Facts about the rotation\<close>

lemma shape_np_full:
  "shape_h (np_full rows cols v) = rows" "0 < rows \<Longrightarrow> shape_w (np_full rows cols v) = cols"
  by (cases rows; simp add: shape_h_def shape_w_def np_full_def)+

lemma rotate_unfold:
  "ImageRotate_run getRotationMatrix2D warpAffine (image0 # rest) angle expand =
     (let h = int (shape_h image0); w = int (shape_w image0);
          rot = getRotationMatrix2D (half w, half h) angle 1;
          new_w = py_int (fadd (int_mul_float h \<bar>m01 rot\<bar>) (int_mul_float w \<bar>m00 rot\<bar>));
          new_h = py_int (fadd (int_mul_float h \<bar>m00 rot\<bar>) (int_mul_float w \<bar>m01 rot\<bar>))
      in if expand
         then (case warpAffine image0
                      (rot\<lparr>m02 := fadd (m02 rot) (fsub (half new_w) (half w)),
                           m12 := fadd (m12 rot) (fsub (half new_h) (half h))\<rparr>)
                      (new_w, new_h) INTER_CUBIC of
                 Inl e \<Rightarrow> Inl e | Inr out \<Rightarrow> Inr [out])
         else (case warpAffine image0 rot (w, h) INTER_CUBIC of
                 Inl e \<Rightarrow> Inl e | Inr out \<Rightarrow> Inr [out]))"
  by (simp add: ImageRotate_run_def Let_def tensor2np_def np2tensor_def unsqueeze0_def
        split: sum.split)

section \<open>Reference-side mode\<close>



section \<open>Megapixel-budget mode\<close>



section \<open>Sign and parity of the planned dimensions\<close>




section \<open>Unknown presets\<close>




section \<open>AddImageBorder: the bordered image and its mask\<close>

text \<open>
  Claim C1 gives the border width as \<open>max(border_width, border_ratio * min(h, w))\<close> and
  the border colour as (r, g, b). The code truncates the product to an integer: a 1 by 1
  image with ratio 1/2 stays 1 by 1, where the claim has a width of 1/2 and a 2 by 2
  canvas. And the code fills the border with the bytes \<^verbatim>\<open>[b, g, r]\<close>: with the colour
  (255, 0, 0) the border pixels are \<^verbatim>\<open>[0, 0, 255]\<close>.
\<close>

theorem add_border_counterexample:
  "add_border [[[[10, 20, 30]]]] 0 (1 / 2) 255 0 0 = Inr ([[[[10, 20, 30]]]], [[[0]]])
   \<and> (1::rat) + 2 * max 0 (1 / 2 * min 1 1) = 2
   \<and> add_border [[[[10, 20, 30]]]] 1 0 255 0 0 =
       Inr ([[[[0, 0, 255], [0, 0, 255], [0, 0, 255]],
              [[0, 0, 255], [10, 20, 30], [0, 0, 255]],
              [[0, 0, 255], [0, 0, 255], [0, 0, 255]]]],
            [[[1, 1, 1], [1, 0, 1], [1, 1, 1]]])"
proof (intro conjI)
  show "add_border [[[[10, 20, 30]]]] 0 (1 / 2) 255 0 0 = Inr ([[[[10, 20, 30]]]], [[[0]]])"
    by code_simp
  show "(1::rat) + 2 * max 0 (1 / 2 * min 1 1) = 2"
    by simp
  show "add_border [[[[10, 20, 30]]]] 1 0 255 0 0 =
       Inr ([[[[0, 0, 255], [0, 0, 255], [0, 0, 255]],
              [[0, 0, 255], [10, 20, 30], [0, 0, 255]],
              [[0, 0, 255], [0, 0, 255], [0, 0, 255]]]],
            [[[1, 1, 1], [1, 0, 1], [1, 1, 1]]])"
    by code_simp
qed

text \<open>
  Claim C1, amended. For a three-channel image of height \<open>h\<close> and width \<open>w\<close> and a
  border width that is not negative, \<^verbatim>\<open>add_border\<close> returns one image and one mask of
  size \<open>(h + 2e, w + 2e)\<close>, where \<open>e\<close> is the larger of the border width and the float
  product of \<open>min(h, w)\<close> and the ratio truncated to an integer. The image holds the
  original in the centre; the mask is 0 over the centre and 1 over the border.
\<close>

theorem add_border_result:
  assumes "is_array image0" and "shape_c image0 = 3" and "0 \<le> border_width"
  shows "let h = shape_h image0; w = shape_w image0;
             e = nat (max border_width (py_int (fl (fl (of_nat (min h w)) * border_ratio))))
         in \<exists>bordered mask.
              add_border (image0 # rest) border_width border_ratio r g b = Inr ([bordered], [mask])
              \<and> is_array bordered \<and> shape_h bordered = h + 2 * e
              \<and> shape_w bordered = w + 2 * e \<and> shape_c bordered = 3
              \<and> is_matrix mask \<and> shape_h mask = h + 2 * e \<and> shape_w mask = w + 2 * e
              \<and> (\<forall>i < h + 2 * e. \<forall>j < w + 2 * e.
                   if e \<le> i \<and> i < e + h \<and> e \<le> j \<and> j < e + w
                   then bordered ! i ! j = image0 ! (i - e) ! (j - e) \<and> mask ! i ! j = 0
                   else mask ! i ! j = 1)"
proof -
  define h where "h = shape_h image0"
  define w where "w = shape_w image0"
  define e where "e = nat (max border_width (py_int (fl (fl (of_nat (min h w)) * border_ratio))))"
  define bordered where "bordered = frame e w [b, g, r] image0"
  define mask where "mask = frame e w (1::rat) (np_full h w 0)"
  have e: "e = nat (final_border_width image0 border_width border_ratio)"
    by (simp add: e_def final_border_width_def Let_def int_mul_float_def float_of_int_def h_def w_def)
  have rows: "\<forall>row \<in> set image0. length row = w"
    using is_arrayD(1)[OF assms(1)] by (simp add: w_def)
  have mrows: "\<forall>row \<in> set (np_full h w (0::rat)). length row = w"
    by (simp add: np_full_def)
  have len: "length image0 = h" "length (np_full h w (0::rat)) = h"
    by (simp_all add: h_def shape_h_def np_full_def)
  from assms(2) have "image0 \<noteq> []" by (auto simp add: shape_c_def)
  then have pos: "0 < h" by (simp add: h_def shape_h_def)
  have res: "add_border (image0 # rest) border_width border_ratio r g b = Inr ([bordered], [mask])"
    using add_border_unfold[OF assms, of rest border_ratio r g b]
    by (simp add: Let_def e[symmetric] bordered_def mask_def h_def w_def)
  have s1: "is_array bordered" "shape_c bordered = 3"
    using is_array_frame[OF assms(1,2)] shape_c_frame[OF assms(1,2)]
    by (simp_all add: bordered_def w_def)
  have s2: "shape_h bordered = h + 2 * e" "shape_h mask = h + 2 * e"
    by (simp_all add: shape_h_def bordered_def mask_def frame_length len)
  have s3: "shape_w bordered = w + 2 * e" "shape_w mask = w + 2 * e"
    using pos by (simp_all add: bordered_def mask_def shape_w_frame rows mrows len)
  have s4: "is_matrix mask"
    unfolding mask_def using pos by (intro is_matrix_frame mrows) (simp add: len)
  have px: "if e \<le> i \<and> i < e + h \<and> e \<le> j \<and> j < e + w
        then bordered ! i ! j = image0 ! (i - e) ! (j - e) \<and> mask ! i ! j = 0
        else mask ! i ! j = 1" if "i < h + 2 * e" "j < w + 2 * e" for i j
  proof -
    have b: "bordered ! i ! j = (if e \<le> i \<and> i < e + h \<and> e \<le> j \<and> j < e + w
        then image0 ! (i - e) ! (j - e) else [b, g, r])"
      unfolding bordered_def using frame_nth[OF rows, of i e j "[b, g, r]"] that by (simp add: len)
    have m: "mask ! i ! j = (if e \<le> i \<and> i < e + h \<and> e \<le> j \<and> j < e + w
        then np_full h w 0 ! (i - e) ! (j - e) else 1)"
      unfolding mask_def using frame_nth[OF mrows, of i e j 1] that by (simp add: len)
    show ?thesis
    proof (cases "e \<le> i \<and> i < e + h \<and> e \<le> j \<and> j < e + w")
      case True
      then have "i - e < h" "j - e < w" by linarith+
      then have "np_full h w (0::rat) ! (i - e) ! (j - e) = 0" by (simp add: np_full_def)
      then show ?thesis using True b m by simp
    next
      case False
      have "mask ! i ! j = 1" by (simp only: m False if_False)
      then show ?thesis by (simp only: False if_False)
    qed
  qed
  show ?thesis
    unfolding Let_def h_def[symmetric] w_def[symmetric] e_def[symmetric]
    using res s1 s2 s3 s4 px by blast
qed

theorem add_border_result_witness:
  "is_array [[[10, 20, 30]]] \<and> shape_c [[[10, 20, 30]]] = 3 \<and> (0::int) \<le> 1
   \<and> (let h = shape_h [[[10, 20, 30 :: uint8]]]; w = shape_w [[[10, 20, 30 :: uint8]]];
             e = nat (max 1 (py_int (fl (fl (of_nat (min h w)) * 0))))
         in \<exists>bordered mask.
              add_border ([[[10, 20, 30]]] # []) 1 0 255 0 0 = Inr ([bordered], [mask])
              \<and> is_array bordered \<and> shape_h bordered = h + 2 * e
              \<and> shape_w bordered = w + 2 * e \<and> shape_c bordered = 3
              \<and> is_matrix mask \<and> shape_h mask = h + 2 * e \<and> shape_w mask = w + 2 * e
              \<and> (\<forall>i < h + 2 * e. \<forall>j < w + 2 * e.
                   if e \<le> i \<and> i < e + h \<and> e \<le> j \<and> j < e + w
                   then bordered ! i ! j = [[[10, 20, 30]]] ! (i - e) ! (j - e) \<and> mask ! i ! j = 0
                   else mask ! i ! j = 1))"
proof -
  have h: "is_array [[[10, 20, 30]]]" "shape_c [[[10, 20, 30]]] = 3" "(0::int) \<le> 1"
    by (simp_all add: is_array_def is_matrix_def shape_w_def shape_c_def)
  from add_border_result[OF h, where rest = "[]" and border_ratio = 0 and r = 255 and g = 0 and b = 0] h show ?thesis
    by (intro conjI) assumption+
qed

section \<open>AddImageBorder: cropping the border off again\<close>

text \<open>
  Claim C9. For a three-channel image and a border width that is not negative, cropping
  the image returned by \<^verbatim>\<open>add_border\<close> by the effective border width on every side
  gives the original image.
\<close>

theorem add_border_crop_back:
  assumes "is_array image0" and "shape_c image0 = 3" and "0 \<le> border_width"
  shows "\<exists>bordered mask.
           add_border (image0 # rest) border_width border_ratio r g b = Inr ([bordered], [mask])
           \<and> crop_back (nat (final_border_width image0 border_width border_ratio)) bordered = image0"
proof -
  have rows: "\<forall>row \<in> set image0. length row = shape_w image0"
    using assms(1) by (rule is_arrayD)
  show ?thesis
    using add_border_unfold[OF assms, of rest border_ratio r g b] crop_back_frame[OF rows]
    by (simp add: Let_def)
qed

theorem add_border_crop_back_witness:
  "is_array [[[10, 20, 30]]] \<and> shape_c [[[10, 20, 30]]] = 3 \<and> (0::int) \<le> 1
   \<and> (\<exists>bordered mask.
           add_border ([[[10, 20, 30]]] # []) 1 0 255 0 0 = Inr ([bordered], [mask])
           \<and> crop_back (nat (final_border_width [[[10, 20, 30]]] 1 0)) bordered = [[[10, 20, 30]]])"
proof -
  have h: "is_array [[[10, 20, 30]]]" "shape_c [[[10, 20, 30]]] = 3" "(0::int) \<le> 1"
    by (simp_all add: is_array_def is_matrix_def shape_w_def shape_c_def)
  from add_border_crop_back[OF h, where rest = "[]" and border_ratio = 0 and r = 255 and g = 0 and b = 0] h show ?thesis
    by (intro conjI) assumption+
qed

section \<open>TrimImageBorders: cropping to the bounding box\<close>

text \<open>
  Claim C7. For an image of three or four channels and a threshold,
  \<^verbatim>\<open>TrimImageBorders.run\<close> takes the luminance of every pixel and maps it to 255 when it
  is above the threshold and to 0 otherwise. When the binarised image is all zero there
  is no bounding box and the image is returned as it is. Otherwise the bounding box
  (left, upper, right, lower) lies inside the image, contains every non-zero value, has
  a non-zero value on each of its four edges, and the result is the original image cut
  to the box.
\<close>

theorem trim_crops_to_bounding_box:
  assumes "is_array image0" and "shape_c image0 = 3 \<or> shape_c image0 = 4"
  shows "let h = shape_h image0; w = shape_w image0;
             binary_image = point (convert_L image0) (\<lambda>x. if x > threshold then 255 else 0)
         in (\<forall>i < h. \<forall>j < w.
               binary_image ! i ! j = (if rgb2l (image0 ! i ! j) > threshold then 255 else 0))
          \<and> (if \<forall>i < h. \<forall>j < w. binary_image ! i ! j = 0
             then getbbox binary_image = None
                  \<and> TrimImageBorders_run (image0 # rest) threshold = Inr [image0]
             else \<exists>l u r d. getbbox binary_image = Some (l, u, r, d)
                  \<and> l < r \<and> r \<le> w \<and> u < d \<and> d \<le> h
                  \<and> (\<forall>i < h. \<forall>j < w. binary_image ! i ! j \<noteq> 0
                        \<longrightarrow> u \<le> i \<and> i < d \<and> l \<le> j \<and> j < r)
                  \<and> (\<exists>j < w. binary_image ! u ! j \<noteq> 0)
                  \<and> (\<exists>j < w. binary_image ! (d - 1) ! j \<noteq> 0)
                  \<and> (\<exists>i < h. binary_image ! i ! l \<noteq> 0)
                  \<and> (\<exists>i < h. binary_image ! i ! (r - 1) \<noteq> 0)
                  \<and> (\<exists>out. TrimImageBorders_run (image0 # rest) threshold = Inr [out]
                        \<and> shape_h out = d - u \<and> shape_w out = r - l
                        \<and> (\<forall>i < d - u. \<forall>j < r - l. out ! i ! j = image0 ! (u + i) ! (l + j))))"
proof -
  define h where "h = shape_h image0"
  define w where "w = shape_w image0"
  define g where "g = point (convert_L image0) (\<lambda>x. if x > threshold then 255 else 0)"
  have gb: "g = binarize image0 threshold" by (simp add: g_def binarize_def)
  have m: "is_matrix image0" using assms(1) by (simp add: is_array_def)
  have gm: "is_matrix g" and gl: "length g = h" and gw: "shape_w g = w"
    using m by (simp_all add: gb binarize_shape shape_h_def h_def w_def)
  have px: "\<forall>i < h. \<forall>j < w. g ! i ! j = (if rgb2l (image0 ! i ! j) > threshold then 255 else 0)"
    by (simp add: gb binarize_nth[OF m] h_def w_def shape_h_def)
  have run: "TrimImageBorders_run (image0 # rest) threshold =
      Inr [case getbbox g of Some bbox \<Rightarrow> crop image0 bbox | None \<Rightarrow> image0]"
    by (simp only: trim_unfold[OF assms(2)] gb)
  have rest: "if \<forall>i < h. \<forall>j < w. g ! i ! j = 0
      then getbbox g = None \<and> TrimImageBorders_run (image0 # rest) threshold = Inr [image0]
      else \<exists>l u r d. getbbox g = Some (l, u, r, d)
           \<and> l < r \<and> r \<le> w \<and> u < d \<and> d \<le> h
           \<and> (\<forall>i < h. \<forall>j < w. g ! i ! j \<noteq> 0 \<longrightarrow> u \<le> i \<and> i < d \<and> l \<le> j \<and> j < r)
           \<and> (\<exists>j < w. g ! u ! j \<noteq> 0) \<and> (\<exists>j < w. g ! (d - 1) ! j \<noteq> 0)
           \<and> (\<exists>i < h. g ! i ! l \<noteq> 0) \<and> (\<exists>i < h. g ! i ! (r - 1) \<noteq> 0)
           \<and> (\<exists>out. TrimImageBorders_run (image0 # rest) threshold = Inr [out]
                 \<and> shape_h out = d - u \<and> shape_w out = r - l
                 \<and> (\<forall>i < d - u. \<forall>j < r - l. out ! i ! j = image0 ! (u + i) ! (l + j)))"
  proof (cases "\<forall>i < h. \<forall>j < w. g ! i ! j = 0")
    case True
    then have "getbbox g = None" by (simp add: getbbox_None_iff[OF gm] gl gw)
    then show ?thesis using True run by simp
  next
    case False
    then have "getbbox g \<noteq> None" by (simp add: getbbox_None_iff[OF gm] gl gw)
    then obtain l u r d where b: "getbbox g = Some (l, u, r, d)" by (cases "getbbox g") auto
    note p = getbbox_Some[OF gm b, unfolded gl gw]
    define out where "out = crop image0 (l, u, r, d)"
    have dl: "d \<le> length image0" and rw: "r \<le> shape_w image0"
      using p(2,4) by (simp_all add: h_def w_def shape_h_def)
    have o1: "TrimImageBorders_run (image0 # rest) threshold = Inr [out]"
      using run b by (simp add: out_def)
    have o2: "shape_h out = d - u" "shape_w out = r - l"
      using crop_length[OF dl] shape_w_crop[OF m dl rw p(3)] by (simp_all add: out_def shape_h_def)
    have o3: "\<forall>i < d - u. \<forall>j < r - l. out ! i ! j = image0 ! (u + i) ! (l + j)"
      using crop_nth[OF m dl rw] by (simp add: out_def)
    have "\<exists>out. TrimImageBorders_run (image0 # rest) threshold = Inr [out]
          \<and> shape_h out = d - u \<and> shape_w out = r - l
          \<and> (\<forall>i < d - u. \<forall>j < r - l. out ! i ! j = image0 ! (u + i) ! (l + j))"
      using o1 o2 o3 by blast
    with b p have "\<exists>l u r d. getbbox g = Some (l, u, r, d)
           \<and> l < r \<and> r \<le> w \<and> u < d \<and> d \<le> h
           \<and> (\<forall>i < h. \<forall>j < w. g ! i ! j \<noteq> 0 \<longrightarrow> u \<le> i \<and> i < d \<and> l \<le> j \<and> j < r)
           \<and> (\<exists>j < w. g ! u ! j \<noteq> 0) \<and> (\<exists>j < w. g ! (d - 1) ! j \<noteq> 0)
           \<and> (\<exists>i < h. g ! i ! l \<noteq> 0) \<and> (\<exists>i < h. g ! i ! (r - 1) \<noteq> 0)
           \<and> (\<exists>out. TrimImageBorders_run (image0 # rest) threshold = Inr [out]
                 \<and> shape_h out = d - u \<and> shape_w out = r - l
                 \<and> (\<forall>i < d - u. \<forall>j < r - l. out ! i ! j = image0 ! (u + i) ! (l + j)))"
      by blast
    then show ?thesis using False by (simp only: if_False)
  qed
  show ?thesis
    unfolding Let_def h_def[symmetric] w_def[symmetric] g_def[symmetric]
    using px rest by (rule conjI)
qed

text \<open>A 2 by 2 image whose only bright pixel is the lower right one is cut to that
  pixel.\<close>

theorem trim_crops_to_bounding_box_witness:
  "TrimImageBorders_run [[[[0, 0, 0], [0, 0, 0]], [[0, 0, 0], [200, 200, 200]]]] 10
     = Inr [[[[200, 200, 200]]]]
   \<and> is_array [[[0, 0, 0], [0, 0, 0]], [[0, 0, 0], [200, 200, 200]]]
   \<and> (shape_c [[[0, 0, 0], [0, 0, 0]], [[0, 0, 0], [200, 200, 200]]] = 3
        \<or> shape_c [[[0, 0, 0], [0, 0, 0]], [[0, 0, 0], [200, 200, 200]]] = 4)
   \<and> (let image0 = [[[0, 0, 0], [0, 0, 0]], [[0, 0, 0], [200, 200, 200 :: uint8]]];
           h = shape_h image0; w = shape_w image0;
           binary_image = point (convert_L image0) (\<lambda>x. if x > 10 then 255 else 0)
       in (\<forall>i < h. \<forall>j < w.
               binary_image ! i ! j = (if rgb2l (image0 ! i ! j) > 10 then 255 else 0))
          \<and> (if \<forall>i < h. \<forall>j < w. binary_image ! i ! j = 0
             then getbbox binary_image = None
                  \<and> TrimImageBorders_run (image0 # []) 10 = Inr [image0]
             else \<exists>l u r d. getbbox binary_image = Some (l, u, r, d)
                  \<and> l < r \<and> r \<le> w \<and> u < d \<and> d \<le> h
                  \<and> (\<forall>i < h. \<forall>j < w. binary_image ! i ! j \<noteq> 0
                        \<longrightarrow> u \<le> i \<and> i < d \<and> l \<le> j \<and> j < r)
                  \<and> (\<exists>j < w. binary_image ! u ! j \<noteq> 0)
                  \<and> (\<exists>j < w. binary_image ! (d - 1) ! j \<noteq> 0)
                  \<and> (\<exists>i < h. binary_image ! i ! l \<noteq> 0)
                  \<and> (\<exists>i < h. binary_image ! i ! (r - 1) \<noteq> 0)
                  \<and> (\<exists>out. TrimImageBorders_run (image0 # []) 10 = Inr [out]
                        \<and> shape_h out = d - u \<and> shape_w out = r - l
                        \<and> (\<forall>i < d - u. \<forall>j < r - l. out ! i ! j = image0 ! (u + i) ! (l + j)))))"
proof -
  have v: "TrimImageBorders_run [[[[0, 0, 0], [0, 0, 0]], [[0, 0, 0], [200, 200, 200]]]] 10
     = Inr [[[[200, 200, 200]]]]"
    by code_simp
  have h1: "is_array [[[0, 0, 0], [0, 0, 0]], [[0, 0, 0], [200, 200, 200]]]"
    by (simp add: is_array_def is_matrix_def shape_w_def shape_c_def)
  have h2: "shape_c [[[0, 0, 0], [0, 0, 0]], [[0, 0, 0], [200, 200, 200]]] = 3
        \<or> shape_c [[[0, 0, 0], [0, 0, 0]], [[0, 0, 0], [200, 200, 200]]] = 4"
    by (simp add: shape_c_def)
  show ?thesis
    apply (rule conjI, rule v, rule conjI, rule h1, rule conjI, rule h2)
    apply (unfold Let_def)
    apply (rule trim_crops_to_bounding_box[OF h1 h2, unfolded Let_def])
    done
qed

section \<open>TrimImageBorders: trimming twice\<close>

text \<open>
  Claim C8. Trimming an image that was trimmed with the same threshold changes nothing:
  the second result is the first one, so it has the same height and width.
\<close>

theorem trim_idempotent:
  assumes "is_array image0" and "shape_c image0 = 3 \<or> shape_c image0 = 4"
  shows "\<exists>out out'. TrimImageBorders_run (image0 # rest) threshold = Inr [out]
           \<and> TrimImageBorders_run [out] threshold = Inr [out']
           \<and> shape_h out' = shape_h out \<and> shape_w out' = shape_w out \<and> out' = out"
  using trim_twice_same[OF assms, of rest threshold] by auto

theorem trim_idempotent_witness:
  "is_array [[[0, 0, 0], [0, 0, 0]], [[0, 0, 0], [200, 200, 200]]]
   \<and> (shape_c [[[0, 0, 0], [0, 0, 0]], [[0, 0, 0], [200, 200, 200]]] = 3
        \<or> shape_c [[[0, 0, 0], [0, 0, 0]], [[0, 0, 0], [200, 200, 200]]] = 4)
   \<and> (\<exists>out out'.
         TrimImageBorders_run ([[[0, 0, 0], [0, 0, 0]], [[0, 0, 0], [200, 200, 200]]] # []) 10 = Inr [out]
           \<and> TrimImageBorders_run [out] 10 = Inr [out']
           \<and> shape_h out' = shape_h out \<and> shape_w out' = shape_w out \<and> out' = out)"
proof -
  have h1: "is_array [[[0, 0, 0], [0, 0, 0]], [[0, 0, 0], [200, 200, 200]]]"
    by (simp add: is_array_def is_matrix_def shape_w_def shape_c_def)
  have h2: "shape_c [[[0, 0, 0], [0, 0, 0]], [[0, 0, 0], [200, 200, 200]]] = 3
        \<or> shape_c [[[0, 0, 0], [0, 0, 0]], [[0, 0, 0], [200, 200, 200]]] = 4"
    by (simp add: shape_c_def)
  show ?thesis
    apply (rule conjI, rule h1, rule conjI, rule h2)
    apply (rule trim_idempotent[OF h1 h2])
    done
qed

section \<open>ImageRotate: the output canvas\<close>

text \<open>
  Claim C6. Let the first row of the matrix that \<^verbatim>\<open>getRotationMatrix2D\<close> returns for the
  centre of the image, the angle and the scale 1 hold the cosine and the sine of the
  angle, and let \<^verbatim>\<open>warpAffine\<close> return an image of the requested size whenever that size
  is positive. Then for an image of height \<open>h\<close> and width \<open>w\<close>, \<^verbatim>\<open>ImageRotate.run\<close> with
  expansion warps the first image, with cubic interpolation, onto a canvas of width
  \<open>int(h * |sin| + w * |cos|)\<close> and height \<open>int(h * |cos| + w * |sin|)\<close>, with the
  translation of the matrix increased by the offset between the centre of the canvas
  and the centre of the image; without expansion the canvas has the size of the image.
\<close>

theorem rotate_canvas:
  assumes "h = int (shape_h image0)" and "w = int (shape_w image0)"
    and "0 < h" and "0 < w"
    and "rot = getRotationMatrix2D (half w, half h) angle 1"
    and "m00 rot = cos_a" and "m01 rot = sin_a"
    and "new_w = py_int (fadd (int_mul_float h \<bar>sin_a\<bar>) (int_mul_float w \<bar>cos_a\<bar>))"
    and "new_h = py_int (fadd (int_mul_float h \<bar>cos_a\<bar>) (int_mul_float w \<bar>sin_a\<bar>))"
    and "0 < new_w" and "0 < new_h"
    and "\<forall>src M nw nh. 0 < nw \<and> 0 < nh \<longrightarrow>
           (\<exists>out. warpAffine src M (nw, nh) INTER_CUBIC = Inr out
                  \<and> int (shape_w out) = nw \<and> int (shape_h out) = nh)"
  shows "ImageRotate_run getRotationMatrix2D warpAffine (image0 # rest) angle True =
           (case warpAffine image0
                   (rot\<lparr>m02 := fadd (m02 rot) (fsub (half new_w) (half w)),
                        m12 := fadd (m12 rot) (fsub (half new_h) (half h))\<rparr>)
                   (new_w, new_h) INTER_CUBIC of
              Inl e \<Rightarrow> Inl e | Inr out \<Rightarrow> Inr [out])
       \<and> (\<exists>out. ImageRotate_run getRotationMatrix2D warpAffine (image0 # rest) angle True = Inr [out]
                \<and> int (shape_w out) = new_w \<and> int (shape_h out) = new_h)
       \<and> ImageRotate_run getRotationMatrix2D warpAffine (image0 # rest) angle False =
           (case warpAffine image0 rot (w, h) INTER_CUBIC of
              Inl e \<Rightarrow> Inl e | Inr out \<Rightarrow> Inr [out])
       \<and> (\<exists>out. ImageRotate_run getRotationMatrix2D warpAffine (image0 # rest) angle False = Inr [out]
                \<and> shape_w out = shape_w image0 \<and> shape_h out = shape_h image0)"
proof -
  let ?rot' = "rot\<lparr>m02 := fadd (m02 rot) (fsub (half new_w) (half w)),
                    m12 := fadd (m12 rot) (fsub (half new_h) (half h))\<rparr>"
  have t: "ImageRotate_run getRotationMatrix2D warpAffine (image0 # rest) angle True =
      (case warpAffine image0 ?rot' (new_w, new_h) INTER_CUBIC of Inl e \<Rightarrow> Inl e | Inr out \<Rightarrow> Inr [out])"
    unfolding rotate_unfold Let_def assms(8,9) assms(6,7)[symmetric] assms(5) assms(1,2)
    by (simp only: if_True)
  have f: "ImageRotate_run getRotationMatrix2D warpAffine (image0 # rest) angle False =
      (case warpAffine image0 rot (w, h) INTER_CUBIC of Inl e \<Rightarrow> Inl e | Inr out \<Rightarrow> Inr [out])"
    unfolding rotate_unfold Let_def assms(5) assms(1,2)
    by (simp only: if_False)
  from assms(12) assms(10,11) obtain out where
    o: "warpAffine image0 ?rot' (new_w, new_h) INTER_CUBIC = Inr out"
       "int (shape_w out) = new_w" "int (shape_h out) = new_h"
    by blast
  from assms(12) assms(3,4) obtain out' where
    o': "warpAffine image0 rot (w, h) INTER_CUBIC = Inr out'"
       "int (shape_w out') = w" "int (shape_h out') = h"
    by blast
  have "\<exists>out. ImageRotate_run getRotationMatrix2D warpAffine (image0 # rest) angle True = Inr [out]
      \<and> int (shape_w out) = new_w \<and> int (shape_h out) = new_h"
    using o by (simp add: t)
  moreover have "\<exists>out. ImageRotate_run getRotationMatrix2D warpAffine (image0 # rest) angle False = Inr [out]
      \<and> shape_w out = shape_w image0 \<and> shape_h out = shape_h image0"
    using o' assms(1,2) by (simp add: f)
  ultimately show ?thesis using t f by blast
qed

text \<open>The scenario of the spec: a quarter turn of an image 100 wide and 50 high gives a
  canvas 50 wide and 100 high.\<close>

theorem rotate_canvas_witness:
  "(50::int) = int (shape_h (np_full 50 100 [0, 0, 0 :: uint8]))
   \<and> (100::int) = int (shape_w (np_full 50 100 [0, 0, 0 :: uint8]))
   \<and> (0::int) < 50 \<and> (0::int) < 100
   \<and> m00 (quarter_turn (half 100, half 50) 90 1) = cos_90
   \<and> m01 (quarter_turn (half 100, half 50) 90 1) = 1
   \<and> (50::int) = py_int (fadd (int_mul_float 50 \<bar>1\<bar>) (int_mul_float 100 \<bar>cos_90\<bar>))
   \<and> (100::int) = py_int (fadd (int_mul_float 50 \<bar>cos_90\<bar>) (int_mul_float 100 \<bar>1\<bar>))
   \<and> (\<exists>out. ImageRotate_run quarter_turn blank_warp (np_full 50 100 [0, 0, 0] # []) 90 True = Inr [out]
                \<and> int (shape_w out) = 50 \<and> int (shape_h out) = 100)
   \<and> (\<exists>out. ImageRotate_run quarter_turn blank_warp (np_full 50 100 [0, 0, 0] # []) 90 False = Inr [out]
                \<and> shape_w out = shape_w (np_full 50 100 [0, 0, 0 :: uint8])
                \<and> shape_h out = shape_h (np_full 50 100 [0, 0, 0 :: uint8]))"
proof -
  have h1: "(50::int) = int (shape_h (np_full 50 100 [0, 0, 0 :: uint8]))"
    and h2: "(100::int) = int (shape_w (np_full 50 100 [0, 0, 0 :: uint8]))"
    by (simp_all add: shape_np_full)
  have h3: "(0::int) < 50" and h4: "(0::int) < 100" by simp_all
  have h6: "m00 (quarter_turn (half 100, half 50) 90 1) = cos_90"
    and h7: "m01 (quarter_turn (half 100, half 50) 90 1) = 1"
    by (simp_all add: quarter_turn_def)
  have h8: "(50::int) = py_int (fadd (int_mul_float 50 \<bar>1\<bar>) (int_mul_float 100 \<bar>cos_90\<bar>))"
    by code_simp
  have h9: "(100::int) = py_int (fadd (int_mul_float 50 \<bar>cos_90\<bar>) (int_mul_float 100 \<bar>1\<bar>))"
    by code_simp
  have h12: "\<forall>src M nw nh. 0 < nw \<and> 0 < nh \<longrightarrow>
           (\<exists>out. blank_warp src M (nw, nh) INTER_CUBIC = Inr out
                  \<and> int (shape_w out) = nw \<and> int (shape_h out) = nh)"
    by (simp add: blank_warp_def shape_np_full)
  note t = rotate_canvas[where getRotationMatrix2D = quarter_turn and warpAffine = blank_warp
      and angle = 90 and rest = "[]" and ?image0.0 = "np_full 50 100 [0, 0, 0]"
      and h = 50 and w = 100 and rot = "quarter_turn (half 100, half 50) 90 1"
      and cos_a = cos_90 and sin_a = 1 and new_w = 50 and new_h = 100,
      OF h1 h2 h3 h4 refl h6 h7 h8 h9 h3 h4 h12]
  from t have "\<exists>out. ImageRotate_run quarter_turn blank_warp (np_full 50 100 [0, 0, 0] # []) 90 True = Inr [out]
                \<and> int (shape_w out) = 50 \<and> int (shape_h out) = 100"
    by (elim conjE)
  moreover from t have "\<exists>out. ImageRotate_run quarter_turn blank_warp (np_full 50 100 [0, 0, 0] # []) 90 False = Inr [out]
                \<and> shape_w out = shape_w (np_full 50 100 [0, 0, 0 :: uint8])
                \<and> shape_h out = shape_h (np_full 50 100 [0, 0, 0 :: uint8])"
    by (elim conjE)
  ultimately show ?thesis using h1 h2 h3 h4 h6 h7 h8 h9 by (intro conjI)
qed

section \<open>Batches\<close>

text \<open>
  Claim C10. On a batch of at least one image, \<^verbatim>\<open>add_border\<close>, \<^verbatim>\<open>TrimImageBorders.run\<close>
  and \<^verbatim>\<open>ImageRotate.run\<close> return what they return on the first image alone, and what
  they return has a batch of exactly one image (and one mask): for a three-channel
  image and a border width that is not negative the first two return such a result,
  and the rotation returns the batch of the one image that the warp of the first image
  returns, failing only when the warp fails.
\<close>

theorem batch_first_image_only:
  assumes "is_array image0" and "shape_c image0 = 3" and "0 \<le> border_width"
  shows "add_border (image0 # rest) border_width border_ratio r g b
           = add_border [image0] border_width border_ratio r g b
       \<and> (\<exists>bordered mask. add_border (image0 # rest) border_width border_ratio r g b
                              = Inr ([bordered], [mask]))
       \<and> TrimImageBorders_run (image0 # rest) threshold = TrimImageBorders_run [image0] threshold
       \<and> (\<exists>out. TrimImageBorders_run (image0 # rest) threshold = Inr [out])
       \<and> ImageRotate_run getRotationMatrix2D warpAffine (image0 # rest) angle expand
           = ImageRotate_run getRotationMatrix2D warpAffine [image0] angle expand
       \<and> (\<exists>M dsize. ImageRotate_run getRotationMatrix2D warpAffine (image0 # rest) angle expand
             = (case warpAffine image0 M dsize INTER_CUBIC of
                  Inl e \<Rightarrow> Inl e | Inr out \<Rightarrow> Inr [out]))"
proof (intro conjI)
  show "add_border (image0 # rest) border_width border_ratio r g b
           = add_border [image0] border_width border_ratio r g b"
    by (simp add: add_border_def)
  show "\<exists>bordered mask. add_border (image0 # rest) border_width border_ratio r g b
                              = Inr ([bordered], [mask])"
    using add_border_unfold[OF assms, of rest border_ratio r g b] by (simp add: Let_def)
  show "TrimImageBorders_run (image0 # rest) threshold = TrimImageBorders_run [image0] threshold"
    by (simp add: TrimImageBorders_run_def)
  show "\<exists>out. TrimImageBorders_run (image0 # rest) threshold = Inr [out]"
    using assms(2) by (simp add: trim_unfold)
  show "ImageRotate_run getRotationMatrix2D warpAffine (image0 # rest) angle expand
           = ImageRotate_run getRotationMatrix2D warpAffine [image0] angle expand"
    by (simp add: ImageRotate_run_def)
  show "\<exists>M dsize. ImageRotate_run getRotationMatrix2D warpAffine (image0 # rest) angle expand
             = (case warpAffine image0 M dsize INTER_CUBIC of
                  Inl e \<Rightarrow> Inl e | Inr out \<Rightarrow> Inr [out])"
    unfolding rotate_unfold Let_def by (cases expand) (simp_all only: if_True if_False, blast+)
qed

theorem batch_first_image_only_witness:
  "is_array [[[10, 20, 30]]] \<and> shape_c [[[10, 20, 30]]] = 3 \<and> (0::int) \<le> 1
   \<and> (add_border ([[[10, 20, 30]]] # [[[[1, 2, 3]]]]) 1 0 255 0 0
           = add_border [[[[10, 20, 30]]]] 1 0 255 0 0
       \<and> (\<exists>bordered mask. add_border ([[[10, 20, 30]]] # [[[[1, 2, 3]]]]) 1 0 255 0 0
                              = Inr ([bordered], [mask]))
       \<and> TrimImageBorders_run ([[[10, 20, 30]]] # [[[[1, 2, 3]]]]) 10
           = TrimImageBorders_run [[[[10, 20, 30]]]] 10
       \<and> (\<exists>out. TrimImageBorders_run ([[[10, 20, 30]]] # [[[[1, 2, 3]]]]) 10 = Inr [out])
       \<and> ImageRotate_run quarter_turn blank_warp ([[[10, 20, 30]]] # [[[[1, 2, 3]]]]) 90 True
           = ImageRotate_run quarter_turn blank_warp [[[[10, 20, 30]]]] 90 True
       \<and> (\<exists>M dsize. ImageRotate_run quarter_turn blank_warp ([[[10, 20, 30]]] # [[[[1, 2, 3]]]]) 90 True
             = (case blank_warp [[[10, 20, 30]]] M dsize INTER_CUBIC of
                  Inl e \<Rightarrow> Inl e | Inr out \<Rightarrow> Inr [out])))"
proof -
  have h: "is_array [[[10, 20, 30]]]" "shape_c [[[10, 20, 30]]] = 3" "(0::int) \<le> 1"
    by (simp_all add: is_array_def is_matrix_def shape_w_def shape_c_def)
  show ?thesis
    apply (rule conjI, rule h, rule conjI, rule h, rule conjI, rule h)
    apply (rule batch_first_image_only[OF h])
    done
qed

end
